theory Spec2Isabelle
  imports Main
begin

section \<open>Text and JSON values of the JavaScript runtime\<close>

text \<open>
  The page under verification is \<^verbatim>\<open>src/pages/ChatPage.tsx\<close>. A JavaScript string is
  modelled as a \<^typ>\<open>string\<close> holding the UTF-8 bytes of the text, the form in which the
  response body arrives. The four characters the tokenizer looks at (backslash, double
  quote and the two braces) are ASCII and never occur inside a multi-byte sequence, so a
  scan over bytes and a scan over UTF-16 code units take the same decisions.
\<close>

definition backslash :: char where
  "backslash = CHR 0x5C"

definition dquote :: char where
  "dquote = CHR 0x22"

text \<open>\<^verbatim>\<open>String.prototype.substring(a, b)\<close>: both indices are clamped to the length and
  swapped when they come in the wrong order; with one argument it runs to the end.\<close>

definition substring :: "string \<Rightarrow> nat \<Rightarrow> nat \<Rightarrow> string" where
  "substring s a b =
     (let a' = min a (length s); b' = min b (length s)
      in take (max a' b' - min a' b') (drop (min a' b') s))"

definition substring_from :: "string \<Rightarrow> nat \<Rightarrow> string" where
  "substring_from s a = drop (min a (length s)) s"

text \<open>\<^verbatim>\<open>String.prototype.includes\<close>.\<close>

fun includes_str :: "string \<Rightarrow> string \<Rightarrow> bool" where
  "includes_str [] needle = (needle = [])"
| "includes_str (c # cs) needle =
     (take (length needle) (c # cs) = needle \<or> includes_str cs needle)"

text \<open>
  The values \<^verbatim>\<open>JSON.parse\<close> returns. A number keeps its source text: the double it
  denotes is outside this model, and nothing in the page computes with it.
  An object keeps its members in source order; a property read takes the last member of
  that name, as the runtime's object does after parsing duplicate keys.
\<close>

datatype json =
    JNull
  | JBool bool
  | JNumber string
  | JString string
  | JArray "json list"
  | JObject "(string \<times> json) list"

subsection \<open>\<^verbatim>\<open>JSON.parse\<close>: the lexical grammar\<close>

datatype lexeme =
    TLBrace | TRBrace | TLBracket | TRBracket | TColon | TComma
  | TStr string | TNum string | TTrue | TFalse | TNull

definition is_ws :: "char \<Rightarrow> bool" where
  "is_ws c = (c = CHR 0x20 \<or> c = CHR 0x09 \<or> c = CHR 0x0A \<or> c = CHR 0x0D)"

definition is_digit :: "char \<Rightarrow> bool" where
  "is_digit c = (48 \<le> (of_char c :: nat) \<and> (of_char c :: nat) \<le> 57)"

definition hex_val :: "char \<Rightarrow> nat option" where
  "hex_val c =
     (let n = (of_char c :: nat) in
      if 48 \<le> n \<and> n \<le> 57 then Some (n - 48)
      else if 65 \<le> n \<and> n \<le> 70 then Some (n - 55)
      else if 97 \<le> n \<and> n \<le> 102 then Some (n - 87)
      else None)"

definition hex4 :: "char \<Rightarrow> char \<Rightarrow> char \<Rightarrow> char \<Rightarrow> nat option" where
  "hex4 a b c d =
     (case (hex_val a, hex_val b, hex_val c, hex_val d) of
        (Some x, Some y, Some z, Some w) \<Rightarrow> Some (((x * 16 + y) * 16 + z) * 16 + w)
      | _ \<Rightarrow> None)"

text \<open>The UTF-8 bytes of a code point; a lone surrogate takes the three-byte form.\<close>

definition utf8 :: "nat \<Rightarrow> string" where
  "utf8 n =
     (if n < 0x80 then [char_of n]
      else if n < 0x800 then [char_of (0xC0 + n div 64), char_of (0x80 + n mod 64)]
      else if n < 0x10000 then
        [char_of (0xE0 + n div 4096), char_of (0x80 + n div 64 mod 64),
         char_of (0x80 + n mod 64)]
      else
        [char_of (0xF0 + n div 262144), char_of (0x80 + n div 4096 mod 64),
         char_of (0x80 + n div 64 mod 64), char_of (0x80 + n mod 64)])"

definition simple_escape :: "char \<Rightarrow> char option" where
  "simple_escape e =
     (if e = dquote then Some dquote
      else if e = backslash then Some backslash
      else if e = CHR ''/'' then Some (CHR ''/'')
      else if e = CHR ''b'' then Some (CHR 0x08)
      else if e = CHR ''f'' then Some (CHR 0x0C)
      else if e = CHR ''n'' then Some (CHR 0x0A)
      else if e = CHR ''r'' then Some (CHR 0x0D)
      else if e = CHR ''t'' then Some (CHR 0x09)
      else None)"

text \<open>
  A \<^verbatim>\<open>\uXXXX\<close> escape yields one UTF-16 code unit. A high surrogate waits in \<open>pend\<close>
  for the low surrogate that may follow it; \<open>flush\<close> writes a waiting one out alone.
  \<open>acc\<close> holds the bytes read so far, last byte first.
\<close>

definition flush :: "nat option \<Rightarrow> string \<Rightarrow> string" where
  "flush pend acc = (case pend of None \<Rightarrow> acc | Some h \<Rightarrow> rev (utf8 h) @ acc)"

definition code_unit :: "nat option \<Rightarrow> string \<Rightarrow> nat \<Rightarrow> nat option \<times> string" where
  "code_unit pend acc n =
     (case pend of
        Some h \<Rightarrow>
          if 0xDC00 \<le> n \<and> n < 0xE000
          then (None, rev (utf8 (0x10000 + (h - 0xD800) * 0x400 + (n - 0xDC00))) @ acc)
          else if 0xD800 \<le> n \<and> n < 0xDC00 then (Some n, rev (utf8 h) @ acc)
          else (None, rev (utf8 n) @ rev (utf8 h) @ acc)
      | None \<Rightarrow>
          if 0xD800 \<le> n \<and> n < 0xDC00 then (Some n, acc) else (None, rev (utf8 n) @ acc))"

fun lex_string :: "nat option \<Rightarrow> string \<Rightarrow> string \<Rightarrow> (string \<times> string) option" where
  "lex_string pend acc [] = None"
| "lex_string pend acc (c # cs) =
     (if c = dquote then Some (rev (flush pend acc), cs)
      else if c = backslash then
        (case cs of
           [] \<Rightarrow> None
         | e # cs1 \<Rightarrow>
             if e = CHR ''u'' then
               (case cs1 of
                  h1 # h2 # h3 # h4 # cs2 \<Rightarrow>
                    (case hex4 h1 h2 h3 h4 of
                       None \<Rightarrow> None
                     | Some n \<Rightarrow>
                         lex_string (fst (code_unit pend acc n)) (snd (code_unit pend acc n)) cs2)
                | _ \<Rightarrow> None)
             else
               (case simple_escape e of
                  None \<Rightarrow> None
                | Some d \<Rightarrow> lex_string None (d # flush pend acc) cs1))
      else if (of_char c :: nat) < 0x20 then None
      else lex_string None (c # flush pend acc) cs)"

text \<open>A number: \<^verbatim>\<open>-? (0 | [1-9][0-9]*) (. [0-9]+)? ([eE] [+-]? [0-9]+)?\<close>.\<close>

definition lex_int :: "string \<Rightarrow> (string \<times> string) option" where
  "lex_int cs =
     (case cs of
        [] \<Rightarrow> None
      | d # r \<Rightarrow>
          if d = CHR ''0'' then Some ([d], r)
          else if is_digit d then Some (d # takeWhile is_digit r, dropWhile is_digit r)
          else None)"

definition lex_frac :: "string \<Rightarrow> (string \<times> string) option" where
  "lex_frac cs =
     (case cs of
        [] \<Rightarrow> Some ([], [])
      | d # r \<Rightarrow>
          if d = CHR ''.'' then
            (if takeWhile is_digit r = [] then None
             else Some (d # takeWhile is_digit r, dropWhile is_digit r))
          else Some ([], cs))"

definition lex_exp :: "string \<Rightarrow> (string \<times> string) option" where
  "lex_exp cs =
     (case cs of
        [] \<Rightarrow> Some ([], [])
      | e # r \<Rightarrow>
          if e = CHR ''e'' \<or> e = CHR ''E'' then
            (let sign = (case r of
                           [] \<Rightarrow> []
                         | s # _ \<Rightarrow> if s = CHR ''+'' \<or> s = CHR ''-'' then [s] else []);
                 r1 = drop (length sign) r
             in if takeWhile is_digit r1 = [] then None
                else Some (e # sign @ takeWhile is_digit r1, dropWhile is_digit r1))
          else Some ([], cs))"

definition lex_number :: "string \<Rightarrow> (string \<times> string) option" where
  "lex_number cs =
     (let sign = (case cs of [] \<Rightarrow> [] | s # _ \<Rightarrow> if s = CHR ''-'' then [s] else [])
      in case lex_int (drop (length sign) cs) of
           None \<Rightarrow> None
         | Some (i, r1) \<Rightarrow>
             (case lex_frac r1 of
                None \<Rightarrow> None
              | Some (f, r2) \<Rightarrow>
                  (case lex_exp r2 of
                     None \<Rightarrow> None
                   | Some (e, r3) \<Rightarrow> Some (sign @ i @ f @ e, r3))))"

definition starts_with :: "string \<Rightarrow> string \<Rightarrow> bool" where
  "starts_with w cs = (take (length w) cs = w)"

text \<open>One token from the front of a text that does not start with white space.\<close>

definition lex_token :: "string \<Rightarrow> (lexeme \<times> string) option" where
  "lex_token cs =
     (case cs of
        [] \<Rightarrow> None
      | c # r \<Rightarrow>
          if c = CHR ''{'' then Some (TLBrace, r)
          else if c = CHR ''}'' then Some (TRBrace, r)
          else if c = CHR ''['' then Some (TLBracket, r)
          else if c = CHR '']'' then Some (TRBracket, r)
          else if c = CHR '':'' then Some (TColon, r)
          else if c = CHR '','' then Some (TComma, r)
          else if c = dquote then map_option (\<lambda>(s, r'). (TStr s, r')) (lex_string None [] r)
          else if c = CHR ''-'' \<or> is_digit c then
            map_option (\<lambda>(n, r'). (TNum n, r')) (lex_number cs)
          else if starts_with ''true'' cs then Some (TTrue, drop 4 cs)
          else if starts_with ''false'' cs then Some (TFalse, drop 5 cs)
          else if starts_with ''null'' cs then Some (TNull, drop 4 cs)
          else None)"

text \<open>
  The token list of a text. \<open>fuel\<close> bounds the number of tokens and white-space
  characters still to be read; every round consumes a character, so the length of the
  text is enough (\<open>lex_tokens_enough\<close> below), and \<open>lex\<close> never stops for lack of it.
\<close>

fun lex_tokens :: "nat \<Rightarrow> string \<Rightarrow> lexeme list option" where
  "lex_tokens fuel [] = Some []"
| "lex_tokens 0 (c # cs) = None"
| "lex_tokens (Suc fuel) (c # cs) =
     (if is_ws c then lex_tokens fuel cs
      else
        (case lex_token (c # cs) of
           None \<Rightarrow> None
         | Some (t, r) \<Rightarrow> map_option ((#) t) (lex_tokens fuel r)))"

definition lex :: "string \<Rightarrow> lexeme list option" where
  "lex s = lex_tokens (length s) s"

subsection \<open>\<^verbatim>\<open>JSON.parse\<close>: the grammar of values\<close>

text \<open>
  A pushdown automaton over the tokens: the stack holds the arrays and objects that are
  still open, each with what it has collected (last item first) and, for an object, the
  key that waits for its value.
\<close>

datatype frame = FArr "json list" | FObj "(string \<times> json) list" string

datatype mode = MValue | MValueOrClose | MKey | MKeyOrClose | MColon | MAfter | MDone json

fun put :: "json \<Rightarrow> frame list \<Rightarrow> mode \<times> frame list" where
  "put v [] = (MDone v, [])"
| "put v (FArr es # st) = (MAfter, FArr (v # es) # st)"
| "put v (FObj ms k # st) = (MAfter, FObj ((k, v) # ms) k # st)"

fun close_arr :: "frame list \<Rightarrow> (mode \<times> frame list) option" where
  "close_arr (FArr es # st) = Some (put (JArray (rev es)) st)"
| "close_arr _ = None"

fun close_obj :: "frame list \<Rightarrow> (mode \<times> frame list) option" where
  "close_obj (FObj ms k # st) = Some (put (JObject (rev ms)) st)"
| "close_obj _ = None"

fun open_value :: "frame list \<Rightarrow> lexeme \<Rightarrow> (mode \<times> frame list) option" where
  "open_value st TLBrace = Some (MKeyOrClose, FObj [] [] # st)"
| "open_value st TLBracket = Some (MValueOrClose, FArr [] # st)"
| "open_value st (TStr s) = Some (put (JString s) st)"
| "open_value st (TNum n) = Some (put (JNumber n) st)"
| "open_value st TTrue = Some (put (JBool True) st)"
| "open_value st TFalse = Some (put (JBool False) st)"
| "open_value st TNull = Some (put JNull st)"
| "open_value st _ = None"

fun set_key :: "frame list \<Rightarrow> string \<Rightarrow> (mode \<times> frame list) option" where
  "set_key (FObj ms _ # st) k = Some (MColon, FObj ms k # st)"
| "set_key _ k = None"

fun after_comma :: "frame list \<Rightarrow> (mode \<times> frame list) option" where
  "after_comma (FArr es # st) = Some (MValue, FArr es # st)"
| "after_comma (FObj ms k # st) = Some (MKey, FObj ms k # st)"
| "after_comma [] = None"

fun pstep :: "mode \<Rightarrow> frame list \<Rightarrow> lexeme \<Rightarrow> (mode \<times> frame list) option" where
  "pstep MValue st t = open_value st t"
| "pstep MValueOrClose st t = (if t = TRBracket then close_arr st else open_value st t)"
| "pstep MKey st t = (case t of TStr k \<Rightarrow> set_key st k | _ \<Rightarrow> None)"
| "pstep MKeyOrClose st t =
     (case t of TStr k \<Rightarrow> set_key st k | TRBrace \<Rightarrow> close_obj st | _ \<Rightarrow> None)"
| "pstep MColon st t = (if t = TColon then Some (MValue, st) else None)"
| "pstep MAfter st t =
     (case t of
        TComma \<Rightarrow> after_comma st
      | TRBracket \<Rightarrow> close_arr st
      | TRBrace \<Rightarrow> close_obj st
      | _ \<Rightarrow> None)"
| "pstep (MDone v) st t = None"

fun prun :: "mode \<Rightarrow> frame list \<Rightarrow> lexeme list \<Rightarrow> json option" where
  "prun m st [] = (case m of MDone v \<Rightarrow> Some v | _ \<Rightarrow> None)"
| "prun m st (t # ts) =
     (case pstep m st t of None \<Rightarrow> None | Some (m', st') \<Rightarrow> prun m' st' ts)"

text \<open>\<^verbatim>\<open>JSON.parse(text)\<close>; \<open>None\<close> is the \<^verbatim>\<open>SyntaxError\<close> it throws.\<close>

definition JSON_parse :: "string \<Rightarrow> json option" where
  "JSON_parse s = (case lex s of None \<Rightarrow> None | Some ts \<Rightarrow> prun MValue [] ts)"

section \<open>The stream tokenizer \<^verbatim>\<open>parseJSONStream\<close>\<close>

text \<open>
  The local variables of \<^verbatim>\<open>parseJSONStream\<close> (lines 43 to 93), and \<open>warned\<close> for the
  texts handed to \<^verbatim>\<open>console.warn\<close>. \<open>depth\<close> is a JavaScript number that only ever
  moves by one from zero, so it is an exact integer.
\<close>

record scan_state =
  parsed :: "json list"
  depth :: int
  start :: nat
  inString :: bool
  escaped :: bool
  warned :: "string list"

definition scan_init :: scan_state where
  "scan_init = \<lparr>parsed = [], depth = 0, start = 0, inString = False, escaped = False,
                 warned = []\<rparr>"

text \<open>
  The body of the \<^verbatim>\<open>for\<close> loop at index \<open>i\<close>; each \<^verbatim>\<open>continue\<close> is a branch that
  returns. \<open>parse\<close> stands for \<^verbatim>\<open>JSON.parse\<close> under the \<^verbatim>\<open>try\<close>: \<open>None\<close> is the
  exception, which the \<^verbatim>\<open>catch\<close> turns into a warning.
\<close>

definition scan_step :: "(string \<Rightarrow> json option) \<Rightarrow> string \<Rightarrow> scan_state \<Rightarrow> nat \<Rightarrow> scan_state" where
  "scan_step parse remaining st i =
     (let char = remaining ! i in
      if escaped st then st\<lparr>escaped := False\<rparr>
      else if char = backslash then st\<lparr>escaped := True\<rparr>
      else if char = dquote then st\<lparr>inString := \<not> inString st\<rparr>
      else if inString st then st
      else if char = CHR ''{'' then st\<lparr>depth := depth st + 1\<rparr>
      else if char = CHR ''}'' then
        (let st1 = st\<lparr>depth := depth st - 1\<rparr> in
         if depth st1 = 0 then
           (let jsonStr = substring remaining (start st1) (i + 1) in
            (case parse jsonStr of
               Some obj \<Rightarrow> st1\<lparr>parsed := parsed st1 @ [obj]\<rparr>
             | None \<Rightarrow> st1\<lparr>warned := warned st1 @ [jsonStr]\<rparr>)\<lparr>start := i + 1\<rparr>)
         else st1)
      else st)"

text \<open>The loop's state after its first \<open>n\<close> rounds.\<close>

definition scan_upto :: "(string \<Rightarrow> json option) \<Rightarrow> string \<Rightarrow> nat \<Rightarrow> scan_state" where
  "scan_upto parse remaining n = foldl (scan_step parse remaining) scan_init [0..<n]"

definition parseJSONStream :: "(string \<Rightarrow> json option) \<Rightarrow> string \<Rightarrow> json list \<times> string" where
  "parseJSONStream parse buffer =
     (let remaining = buffer;
          st = scan_upto parse remaining (length remaining)
      in (parsed st, substring_from remaining (start st)))"

definition parseJSONStream_warnings :: "(string \<Rightarrow> json option) \<Rightarrow> string \<Rightarrow> string list" where
  "parseJSONStream_warnings parse buffer = warned (scan_upto parse buffer (length buffer))"

subsection \<open>The read loop's use of the tokenizer\<close>

text \<open>
  Lines 284 to 288 of \<^verbatim>\<open>handleSendMessage\<close>: each chunk is appended to the buffer, the
  buffer is tokenized, and the remainder becomes the buffer of the next round.
  \<open>read_objects\<close> is the list of all objects the loop takes from a list of chunks, in
  order, with the buffer left at the end.
\<close>

fun read_objects :: "(string \<Rightarrow> json option) \<Rightarrow> string \<Rightarrow> string list \<Rightarrow> json list \<times> string" where
  "read_objects parse buffer [] = ([], buffer)"
| "read_objects parse buffer (chunk # chunks) =
     (case parseJSONStream parse (buffer @ chunk) of
        (objs, remaining) \<Rightarrow>
          (case read_objects parse remaining chunks of
             (later, final) \<Rightarrow> (objs @ later, final)))"


section \<open>Messages and the dispatch of stream events\<close>

text \<open>
  The interface \<^verbatim>\<open>Message\<close> (lines 21 to 34). An optional field is an \<open>option\<close>, with
  \<open>None\<close> for \<^verbatim>\<open>undefined\<close>. The field \<^verbatim>\<open>id\<close> is \<open>msg_id\<close> here.
\<close>

datatype role = user | assistant

record Message =
  msg_id :: string
  content :: string
  role :: role
  timestamp :: nat
  isStreaming :: "bool option"
  reasoning :: "string option"
  isReasoningComplete :: "bool option"
  metadata :: "json option"

text \<open>An \<^verbatim>\<open>Error\<close> object: its \<^verbatim>\<open>name\<close> and its \<^verbatim>\<open>message\<close>.\<close>

datatype js_error = JSError string string

text \<open>
  Reading the property \<open>k\<close> of a parsed value, for the names \<^verbatim>\<open>type\<close> and \<^verbatim>\<open>data\<close>,
  which no prototype defines: \<^verbatim>\<open>null\<close> throws a \<^verbatim>\<open>TypeError\<close> (with the wording of V8),
  an object yields its last member of that name, and every other value and every
  missing member yields \<^verbatim>\<open>undefined\<close>.
\<close>

definition get_prop :: "json \<Rightarrow> string \<Rightarrow> js_error + json option" where
  "get_prop v k =
     (case v of
        JNull \<Rightarrow>
          Inl (JSError ''TypeError''
                 (''Cannot read properties of null (reading '' @ [CHR 0x27] @ k @ [CHR 0x27] @ '')''))
      | JObject ms \<Rightarrow> Inr (map_of (rev ms) k)
      | _ \<Rightarrow> Inr None)"

text \<open>
  What \<^verbatim>\<open>acc += data\<close> appends to a string: the string itself, or the text the runtime
  converts another value to. \<open>nts\<close> is the runtime's conversion of a number, given by its
  source text, to a string; it involves the number's double and is a parameter of the
  model.
\<close>

fun join_comma :: "string list \<Rightarrow> string" where
  "join_comma [] = []"
| "join_comma [x] = x"
| "join_comma (x # y # ys) = x @ '','' @ join_comma (y # ys)"

fun to_str :: "(string \<Rightarrow> string) \<Rightarrow> json \<Rightarrow> string" where
  "to_str nts JNull = ''null''"
| "to_str nts (JBool b) = (if b then ''true'' else ''false'')"
| "to_str nts (JNumber n) = nts n"
| "to_str nts (JString s) = s"
| "to_str nts (JArray es) = join_comma (map (\<lambda>e. if e = JNull then [] else to_str nts e) es)"
| "to_str nts (JObject ms) = ''[object Object]''"

definition append_data :: "(string \<Rightarrow> string) \<Rightarrow> string \<Rightarrow> json option \<Rightarrow> string" where
  "append_data nts acc d = acc @ (case d of None \<Rightarrow> ''undefined'' | Some v \<Rightarrow> to_str nts v)"

text \<open>
  The variables of one call of \<^verbatim>\<open>handleSendMessage\<close> that the read loop works on
  (lines 220 and 272 to 275).
\<close>

record turn_vars =
  aiMessageId :: string
  accumulatedContent :: string
  accumulatedReasoning :: string
  isReasoningPhase :: bool
  buffer :: string

text \<open>
  The four updates the loop hands to \<^verbatim>\<open>setMessages\<close> (lines 293, 303, 312 and 320). Each
  is the function \<^verbatim>\<open>prev => prev.map(msg => msg.id === aiMessageId ? {...msg, f: x} : msg)\<close>
  for one field; the framework applies them in the order of the calls.
\<close>

datatype update =
    SetReasoning string
  | SetReasoningComplete
  | SetContent string
  | SetMetadata "json option"

fun apply_update :: "update \<Rightarrow> Message \<Rightarrow> Message" where
  "apply_update (SetReasoning r) msg = msg\<lparr>reasoning := Some r\<rparr>"
| "apply_update SetReasoningComplete msg = msg\<lparr>isReasoningComplete := Some True\<rparr>"
| "apply_update (SetContent c) msg = msg\<lparr>content := c\<rparr>"
| "apply_update (SetMetadata d) msg = msg\<lparr>metadata := d\<rparr>"

definition setMessages_by_id :: "string \<Rightarrow> update \<Rightarrow> Message list \<Rightarrow> Message list" where
  "setMessages_by_id aid u prev = map (\<lambda>msg. if msg_id msg = aid then apply_update u msg else msg) prev"

definition setMessages_all :: "string \<Rightarrow> update list \<Rightarrow> Message list \<Rightarrow> Message list" where
  "setMessages_all aid us prev = foldl (\<lambda>ms u. setMessages_by_id aid u ms) prev us"

text \<open>
  The body of \<^verbatim>\<open>for (const parsedChunk of parsed)\<close> (lines 290 to 328): the new
  variables and the updates issued, or the error thrown.
\<close>

definition dispatch :: "(string \<Rightarrow> string) \<Rightarrow> turn_vars \<Rightarrow> json \<Rightarrow> js_error + (turn_vars \<times> update list)" where
  "dispatch nts v parsedChunk =
     (case get_prop parsedChunk ''type'' of
        Inl e \<Rightarrow> Inl e
      | Inr ty \<Rightarrow>
          if ty = Some (JString ''reasoning'') then
            (case get_prop parsedChunk ''data'' of
               Inl e \<Rightarrow> Inl e
             | Inr d \<Rightarrow>
                 (let acc = append_data nts (accumulatedReasoning v) d
                  in Inr (v\<lparr>accumulatedReasoning := acc\<rparr>, [SetReasoning acc])))
          else if ty = Some (JString ''content'') then
            (let v1 = (if isReasoningPhase v then v\<lparr>isReasoningPhase := False\<rparr> else v);
                 us1 = (if isReasoningPhase v then [SetReasoningComplete] else [])
             in case get_prop parsedChunk ''data'' of
                  Inl e \<Rightarrow> Inl e
                | Inr d \<Rightarrow>
                    (let acc = append_data nts (accumulatedContent v1) d
                     in Inr (v1\<lparr>accumulatedContent := acc\<rparr>, us1 @ [SetContent acc])))
          else if ty = Some (JString ''metadata'') then
            (case get_prop parsedChunk ''data'' of
               Inl e \<Rightarrow> Inl e
             | Inr d \<Rightarrow> Inr (v, [SetMetadata d]))
          else Inr (v, []))"

text \<open>The whole \<^verbatim>\<open>for\<close> loop: it stops at the first error, with the updates issued so far.\<close>

fun dispatch_all :: "(string \<Rightarrow> string) \<Rightarrow> turn_vars \<Rightarrow> json list \<Rightarrow> turn_vars \<times> update list \<times> js_error option" where
  "dispatch_all nts v [] = (v, [], None)"
| "dispatch_all nts v (parsedChunk # objs) =
     (case dispatch nts v parsedChunk of
        Inl e \<Rightarrow> (v, [], Some e)
      | Inr (v1, us) \<Rightarrow>
          (case dispatch_all nts v1 objs of (v2, us2, r) \<Rightarrow> (v2, us @ us2, r)))"

text \<open>
  For the statements below: \<open>has_type parsedChunk k\<close> is the test
  \<^verbatim>\<open>parsedChunk.type === k\<close>, and \<open>data_text nts parsedChunk\<close> is the text that
  \<^verbatim>\<open>acc += parsedChunk.data\<close> appends.
\<close>

definition has_type :: "json \<Rightarrow> string \<Rightarrow> bool" where
  "has_type parsedChunk k = (get_prop parsedChunk ''type'' = Inr (Some (JString k)))"

definition data_text :: "(string \<Rightarrow> string) \<Rightarrow> json \<Rightarrow> string" where
  "data_text nts parsedChunk =
     (case get_prop parsedChunk ''data'' of Inl e \<Rightarrow> [] | Inr d \<Rightarrow> append_data nts [] d)"

section \<open>The page state and one turn of \<^verbatim>\<open>handleSendMessage\<close>\<close>

text \<open>
  Modelled from the spec: the type \<^verbatim>\<open>Model\<close> of \<^verbatim>\<open>@/types/model\<close>, which is not among
  the sources; the spec's model catalog yields \<^verbatim>\<open>{id, name, provider, isReasoning}\<close>.
  Only the two fields that decide the phase of a turn are kept.
\<close>

record Model =
  model_id :: string
  isReasoning :: bool

datatype file_kind = image_file | document_file

datatype toast = Toast string string bool

datatype abort_controller = Controller

text \<open>
  The state of the component that the turn reads or writes: the \<^verbatim>\<open>useState\<close> values,
  the bearer token of \<^verbatim>\<open>useAuth\<close>, the ref holding the cancellation token, and the
  notifications sent through \<^verbatim>\<open>toast\<close>, oldest first. Scroll state and the request
  body (lines 237 to 251), which nothing in the page reads back, are left out.
\<close>

record page =
  selectedModel :: string
  messages :: "Message list"
  inputValue :: string
  isLoading :: bool
  uploadedFiles :: "file_kind list"
  availableModels :: "Model list"
  token :: "string option"
  abortControllerRef :: "abort_controller option"
  toasts :: "toast list"

text \<open>\<^verbatim>\<open>Number.prototype.toString\<close> of a natural number (a clock reading, a status).\<close>

function decimal :: "nat \<Rightarrow> string" where
  "decimal n = (if n < 10 then [char_of (48 + n)] else decimal (n div 10) @ [char_of (48 + n mod 10)])"
  by pat_completeness auto
termination
  by (relation "measure (\<lambda>n. n)") auto

declare decimal.simps [simp del]

text \<open>
  \<^verbatim>\<open>!s.trim()\<close>: the text consists of white space and line terminators only, read in
  UTF-8 (U+0009 to U+000D, U+0020, U+00A0, U+1680, U+2000 to U+200A, U+2028, U+2029,
  U+202F, U+205F, U+3000, U+FEFF).
\<close>

definition ws3 :: "char \<Rightarrow> char \<Rightarrow> char \<Rightarrow> bool" where
  "ws3 a b c =
     (let x = (of_char a :: nat); y = (of_char b :: nat); z = (of_char c :: nat) in
      (x = 0xE1 \<and> y = 0x9A \<and> z = 0x80)
      \<or> (x = 0xE2 \<and> y = 0x80 \<and> (0x80 \<le> z \<and> z \<le> 0x8A \<or> z = 0xA8 \<or> z = 0xA9 \<or> z = 0xAF))
      \<or> (x = 0xE2 \<and> y = 0x81 \<and> z = 0x9F)
      \<or> (x = 0xE3 \<and> y = 0x80 \<and> z = 0x80)
      \<or> (x = 0xEF \<and> y = 0xBB \<and> z = 0xBF))"

fun js_blank :: "string \<Rightarrow> bool" where
  "js_blank [] = True"
| "js_blank (a # cs) =
     (if 0x09 \<le> (of_char a :: nat) \<and> (of_char a :: nat) \<le> 0x0D \<or> a = CHR 0x20 then js_blank cs
      else
        (case cs of
           [] \<Rightarrow> False
         | b # cs1 \<Rightarrow>
             if a = CHR 0xC2 \<and> b = CHR 0xA0 then js_blank cs1
             else
               (case cs1 of
                  [] \<Rightarrow> False
                | c # cs2 \<Rightarrow> if ws3 a b c then js_blank cs2 else False)))"

text \<open>\<^verbatim>\<open>handleCancelRequest\<close> (lines 162 to 187), without the effect of \<^verbatim>\<open>abort()\<close> on the
  request, which \<open>cancelled\<close> below adds.\<close>

definition mark_cancelled :: "Message list \<Rightarrow> Message list" where
  "mark_cancelled prev =
     map (\<lambda>(index, msg).
            if index = int (length prev) - 1 \<and> role msg = assistant \<and> isStreaming msg = Some True
            then msg\<lparr>content := content msg @ ''\<newline>\<newline>*Response was cancelled*'',
                     isStreaming := Some False,
                     isReasoningComplete := Some True\<rparr>
            else msg)
         (zip (map int [0..<length prev]) prev)"

definition handleCancelRequest :: "page \<Rightarrow> page" where
  "handleCancelRequest p =
     (case abortControllerRef p of
        None \<Rightarrow> p
      | Some c \<Rightarrow>
          p\<lparr>abortControllerRef := None,
            isLoading := False,
            messages := mark_cancelled (messages p),
            toasts := toasts p @
              [Toast ''Request Cancelled'' ''The response generation has been stopped.'' False]\<rparr>)"

text \<open>Lines 221 and 222: the capability flag of the selected model, \<^verbatim>\<open>false\<close> when the
  catalog does not list it.\<close>

definition isReasoningModel :: "page \<Rightarrow> bool" where
  "isReasoningModel p =
     (case find (\<lambda>m. model_id m = selectedModel p) (availableModels p) of
        None \<Rightarrow> False
      | Some m \<Rightarrow> isReasoning m)"

text \<open>
  \<^verbatim>\<open>handleSendMessage\<close> from its first line to the call of \<^verbatim>\<open>fetch\<close> (lines 194 to 263),
  which runs without interruption. \<open>now1\<close> and \<open>now2\<close> are the two readings of
  \<^verbatim>\<open>Date.now()\<close>; the timestamps, which nothing reads, reuse them. The result is the new
  page and, when the turn starts, its variables (those of line 272 to 275 already with
  their initial values).
\<close>

definition handleSendMessage_begin :: "nat \<Rightarrow> nat \<Rightarrow> page \<Rightarrow> page \<times> turn_vars option" where
  "handleSendMessage_begin now1 now2 p =
     (if (js_blank (inputValue p) \<and> length (uploadedFiles p) = 0) \<or> isLoading p then (p, None)
      else if token p = None \<or> token p = Some [] then
        (p\<lparr>toasts := toasts p @
             [Toast ''Authentication Error'' ''Please log in to send messages.'' True]\<rparr>, None)
      else
        (let userMessage =
               \<lparr>msg_id = decimal now1, content = inputValue p, role = user, timestamp = now1,
                isStreaming = None, reasoning = None, isReasoningComplete = None,
                metadata = None\<rparr>;
             aiMessageId = decimal (now2 + 1);
             aiMessage =
               \<lparr>msg_id = aiMessageId, content = [], role = assistant, timestamp = now2,
                isStreaming = Some True,
                reasoning = (if isReasoningModel p then Some [] else None),
                isReasoningComplete = Some False, metadata = None\<rparr>
         in (p\<lparr>messages := (messages p @ [userMessage]) @ [aiMessage],
               inputValue := [],
               uploadedFiles := [],
               isLoading := True,
               abortControllerRef := Some Controller\<rparr>,
             Some \<lparr>aiMessageId = aiMessageId, accumulatedContent = [],
                   accumulatedReasoning = [], isReasoningPhase = isReasoningModel p,
                   buffer = []\<rparr>)))"

text \<open>
  The rest of the call runs between its \<^verbatim>\<open>await\<close>s. \<open>control\<close> says which one the call
  is suspended at; an \<open>event\<close> is what resumes it, or the user's click on the cancel
  button, which runs while the call is suspended. A chunk event carries the text that
  \<^verbatim>\<open>decoder.decode(value, {stream: true})\<close> returns for it.
\<close>

datatype control = AwaitFetch | AwaitText nat | AwaitRead | Returned

datatype event =
    FetchResolves bool nat bool
  | FetchRejects js_error
  | TextResolves string
  | TextRejects js_error
  | ReadChunk string
  | ReadDone
  | ReadRejects js_error
  | CancelClicked

record session =
  page_of :: page
  vars :: turn_vars
  control :: control

text \<open>The \<^verbatim>\<open>catch\<close> block (lines 343 to 381) and the \<^verbatim>\<open>finally\<close> block (lines 382 to 385).\<close>

definition catch_block :: "js_error \<Rightarrow> string \<Rightarrow> page \<Rightarrow> page" where
  "catch_block error aid p =
     (case error of
        JSError name message \<Rightarrow>
          if name = ''AbortError'' then p
          else
            (let errorMessage =
                   (if includes_str message ''Failed to fetch''
                    then ''Unable to connect to server. Please check your connection.''
                    else if includes_str message ''401''
                    then ''Authentication failed. Please log in again.''
                    else if includes_str message ''403''
                    then ''Access denied. Please check your permissions.''
                    else if includes_str message ''404''
                    then ''Chat endpoint not found. Please check server configuration.''
                    else if includes_str message ''500''
                    then ''Server error. Please try again later.''
                    else ''Failed to send message. Please try again.'')
             in p\<lparr>toasts := toasts p @ [Toast ''Error'' errorMessage True],
                  messages :=
                    map (\<lambda>msg.
                           if msg_id msg = aid
                           then msg\<lparr>content := ''Sorry, I encountered an error while processing your request. Please try again.'',
                                    isStreaming := Some False\<rparr>
                           else msg)
                        (messages p)\<rparr>))"

definition finally_block :: "page \<Rightarrow> page" where
  "finally_block p = p\<lparr>isLoading := False, abortControllerRef := None\<rparr>"

definition throws :: "js_error \<Rightarrow> session \<Rightarrow> session" where
  "throws e s =
     s\<lparr>page_of := finally_block (catch_block e (aiMessageId (vars s)) (page_of s)),
       control := Returned\<rparr>"

text \<open>Lines 335 to 341, reached when the loop ends or there is no body to read.\<close>

definition finished :: "session \<Rightarrow> session" where
  "finished s =
     s\<lparr>page_of :=
         finally_block
           ((page_of s)\<lparr>messages :=
              map (\<lambda>msg.
                     if msg_id msg = aiMessageId (vars s)
                     then msg\<lparr>isStreaming := Some False, isReasoningComplete := Some True\<rparr>
                     else msg)
                  (messages (page_of s))\<rparr>),
       control := Returned\<rparr>"

text \<open>
  The cancel button during a turn: \<^verbatim>\<open>handleCancelRequest\<close> runs, and its \<^verbatim>\<open>abort()\<close>
  makes the pending \<^verbatim>\<open>await\<close> reject with an \<^verbatim>\<open>AbortError\<close>, which the call's \<^verbatim>\<open>catch\<close>
  answers by returning. Without a controller in the ref the handler does nothing.
\<close>

definition cancelled :: "session \<Rightarrow> session" where
  "cancelled s =
     (case abortControllerRef (page_of s) of
        None \<Rightarrow> s
      | Some c \<Rightarrow>
          throws (JSError ''AbortError'' ''signal is aborted without reason'')
            (s\<lparr>page_of := handleCancelRequest (page_of s)\<rparr>))"

text \<open>One round of the read loop after \<^verbatim>\<open>reader.read()\<close> has delivered a chunk
  (lines 284 to 328).\<close>

definition on_chunk :: "(string \<Rightarrow> string) \<Rightarrow> string \<Rightarrow> session \<Rightarrow> session" where
  "on_chunk nts chunk s =
     (case parseJSONStream JSON_parse (buffer (vars s) @ chunk) of
        (objs, remaining) \<Rightarrow>
          (case dispatch_all nts ((vars s)\<lparr>buffer := remaining\<rparr>) objs of
             (v, us, r) \<Rightarrow>
               (let s1 = s\<lparr>vars := v,
                          page_of := (page_of s)\<lparr>messages :=
                            setMessages_all (aiMessageId (vars s)) us (messages (page_of s))\<rparr>\<rparr>
                in case r of None \<Rightarrow> s1 | Some e \<Rightarrow> throws e s1)))"

fun step :: "(string \<Rightarrow> string) \<Rightarrow> session \<Rightarrow> event \<Rightarrow> session" where
  "step nts s ev =
     (case control s of
        Returned \<Rightarrow>
          (case ev of
             CancelClicked \<Rightarrow> s\<lparr>page_of := handleCancelRequest (page_of s)\<rparr>
           | _ \<Rightarrow> s)
      | AwaitFetch \<Rightarrow>
          (case ev of
             CancelClicked \<Rightarrow> cancelled s
           | FetchRejects e \<Rightarrow> throws e s
           | FetchResolves ok status body \<Rightarrow>
               if \<not> ok then s\<lparr>control := AwaitText status\<rparr>
               else if body then s\<lparr>control := AwaitRead\<rparr>
               else finished s
           | _ \<Rightarrow> s)
      | AwaitText status \<Rightarrow>
          (case ev of
             CancelClicked \<Rightarrow> cancelled s
           | TextResolves errorText \<Rightarrow>
               throws (JSError ''Error''
                         (''HTTP error! status: '' @ decimal status @ '', message: '' @ errorText)) s
           | TextRejects e \<Rightarrow> throws e s
           | _ \<Rightarrow> s)
      | AwaitRead \<Rightarrow>
          (case ev of
             CancelClicked \<Rightarrow> cancelled s
           | ReadChunk chunk \<Rightarrow> on_chunk nts chunk s
           | ReadDone \<Rightarrow> finished s
           | ReadRejects e \<Rightarrow> throws e s
           | _ \<Rightarrow> s))"

declare step.simps [simp del]

definition run :: "(string \<Rightarrow> string) \<Rightarrow> session \<Rightarrow> event list \<Rightarrow> session" where
  "run nts s evs = foldl (step nts) s evs"

subsection \<open>A concrete page, for the examples\<close>

text \<open>
  A page with one model in its catalog, selected, with or without the reasoning
  capability; a typed question and a bearer token; and the turn that
  \<^verbatim>\<open>handleSendMessage\<close> starts on it when both clock readings are \<open>1\<close>.
\<close>

definition sample_page :: "bool \<Rightarrow> page" where
  "sample_page r =
     \<lparr>selectedModel = ''m'', messages = [], inputValue = ''hi'', isLoading = False,
      uploadedFiles = [], availableModels = [\<lparr>model_id = ''m'', isReasoning = r\<rparr>],
      token = Some ''t'', abortControllerRef = None, toasts = []\<rparr>"

definition sample_session :: "bool \<Rightarrow> session" where
  "sample_session r =
     \<lparr>page_of = fst (handleSendMessage_begin 1 1 (sample_page r)),
      vars = the (snd (handleSendMessage_begin 1 1 (sample_page r))),
      control = AwaitFetch\<rparr>"

section \<open>A scan over the characters, for the proofs\<close>

text \<open>
  The loop depends on the text only through the characters it meets, and on the index
  only to cut the candidate out of the buffer. The functions below scan a list of
  characters, carrying the three flags \<open>(depth, inString, escaped)\<close> and the text read
  since the last boundary; \<open>scan_bridge\<close> shows that the loop computes the same.
\<close>

type_synonym cstate = "int \<times> bool \<times> bool"

definition cstate_of :: "scan_state \<Rightarrow> cstate" where
  "cstate_of st = (depth st, inString st, escaped st)"

definition q0 :: cstate where "q0 = (0, False, False)"

fun is_boundary :: "cstate \<Rightarrow> char \<Rightarrow> bool" where
  "is_boundary (d, s, e) c = (\<not> e \<and> \<not> s \<and> c = CHR ''}'' \<and> d = 1)"

fun cstep :: "cstate \<Rightarrow> char \<Rightarrow> cstate" where
  "cstep (d, s, e) c =
     (if e then (d, s, False)
      else if c = backslash then (d, s, True)
      else if c = dquote then (d, \<not> s, e)
      else if s then (d, s, e)
      else if c = CHR ''{'' then (d + 1, s, e)
      else if c = CHR ''}'' then (d - 1, s, e)
      else (d, s, e))"

fun cands :: "cstate \<Rightarrow> string \<Rightarrow> string \<Rightarrow> string list" where
  "cands q cur [] = []"
| "cands q cur (c # cs) =
     (if is_boundary q c then (cur @ [c]) # cands q0 [] cs else cands (cstep q c) (cur @ [c]) cs)"

fun rest :: "cstate \<Rightarrow> string \<Rightarrow> string \<Rightarrow> string" where
  "rest q cur [] = cur"
| "rest q cur (c # cs) =
     (if is_boundary q c then rest q0 [] cs else rest (cstep q c) (cur @ [c]) cs)"

fun fin :: "cstate \<Rightarrow> string \<Rightarrow> cstate" where
  "fin q [] = q"
| "fin q (c # cs) = (if is_boundary q c then fin q0 cs else fin (cstep q c) cs)"

text \<open>\<open>settled cur q\<close>: scanning \<open>cur\<close> from the initial flags cuts nothing and ends
  in the flags \<open>q\<close>.\<close>

definition settled :: "string \<Rightarrow> cstate \<Rightarrow> bool" where
  "settled cur q = (cands q0 [] cur = [] \<and> rest q0 [] cur = cur \<and> fin q0 cur = q)"

text \<open>The effect of a list of updates on one message, and the four cases of the loop body.\<close>

definition apply_all :: "update list \<Rightarrow> Message \<Rightarrow> Message" where
  "apply_all us m = foldl (\<lambda>m u. apply_update u m) m us"

datatype kind = KReasoning | KContent | KMetadata | KOther

definition kind_of :: "json \<Rightarrow> kind" where
  "kind_of obj =
     (if has_type obj ''reasoning'' then KReasoning
      else if has_type obj ''content'' then KContent
      else if has_type obj ''metadata'' then KMetadata
      else KOther)"

text \<open>
  Two invariants of a turn. \<open>cleared\<close>: once the call has returned, the loading flag
  is off and the ref is empty. \<open>live\<close>: while the call is suspended, the ref holds the
  controller, and the last message of the transcript is the turn's assistant message,
  still streaming, with the accumulated content as its content.
\<close>

definition cleared :: "session \<Rightarrow> bool" where
  "cleared s = (control s = Returned \<longrightarrow>
      \<not> isLoading (page_of s) \<and> abortControllerRef (page_of s) = None)"

definition live :: "session \<Rightarrow> bool" where
  "live s = (control s \<noteq> Returned \<longrightarrow>
      abortControllerRef (page_of s) \<noteq> None \<and> messages (page_of s) \<noteq> []
      \<and> msg_id (last (messages (page_of s))) = aiMessageId (vars s)
      \<and> role (last (messages (page_of s))) = assistant
      \<and> isStreaming (last (messages (page_of s))) = Some True
      \<and> content (last (messages (page_of s))) = accumulatedContent (vars s))"

section \<open>The tokenizer: lemmas\<close>

lemma special_chars_distinct:
  "CHR ''}'' \<noteq> backslash" "CHR ''}'' \<noteq> dquote" "CHR ''{'' \<noteq> backslash" "CHR ''{'' \<noteq> dquote"
  "backslash \<noteq> dquote"
  by (simp_all add: backslash_def dquote_def)

lemma scan_step_boundary:
  assumes "is_boundary (cstate_of st) (buf ! i)"
  shows "scan_step parse buf st i =
     (case parse (substring buf (start st) (i + 1)) of
        Some obj \<Rightarrow> st\<lparr>depth := 0, parsed := parsed st @ [obj], start := i + 1\<rparr>
      | None \<Rightarrow> st\<lparr>depth := 0, warned := warned st @ [substring buf (start st) (i + 1)], start := i + 1\<rparr>)"
  using assms
  by (auto simp: scan_step_def cstate_of_def Let_def special_chars_distinct split: option.splits)

lemma scan_step_other:
  assumes "\<not> is_boundary (cstate_of st) (buf ! i)"
  shows "parsed (scan_step parse buf st i) = parsed st"
    and "warned (scan_step parse buf st i) = warned st"
    and "start (scan_step parse buf st i) = start st"
    and "cstate_of (scan_step parse buf st i) = cstep (cstate_of st) (buf ! i)"
  using assms
  by (auto simp: scan_step_def cstate_of_def Let_def special_chars_distinct split: option.splits)

lemma take_drop_snoc:
  assumes "i < length buf" "s \<le> i"
  shows "take (Suc i - s) (drop s buf) = take (i - s) (drop s buf) @ [buf ! i]"
proof -
  have "Suc i - s = Suc (i - s)" using assms by simp
  moreover have "i - s < length (drop s buf)" using assms by simp
  moreover have "drop s buf ! (i - s) = buf ! i" using assms by simp
  ultimately show ?thesis by (simp add: take_Suc_conv_app_nth)
qed

lemma substring_take_drop:
  assumes "s \<le> e" "e \<le> length buf"
  shows "substring buf s e = take (e - s) (drop s buf)"
  using assms by (simp add: substring_def Let_def min_def max_def)

lemma scan_bridge:
  assumes "i \<le> n" "n \<le> length buf" "start st \<le> i"
  shows "parsed (foldl (scan_step parse buf) st [i..<n]) =
           parsed st @ List.map_filter parse
             (cands (cstate_of st) (take (i - start st) (drop (start st) buf)) (take (n - i) (drop i buf)))
       \<and> warned (foldl (scan_step parse buf) st [i..<n]) =
           warned st @ filter (\<lambda>s. parse s = None)
             (cands (cstate_of st) (take (i - start st) (drop (start st) buf)) (take (n - i) (drop i buf)))
       \<and> start (foldl (scan_step parse buf) st [i..<n]) \<le> n
       \<and> take (n - start (foldl (scan_step parse buf) st [i..<n]))
            (drop (start (foldl (scan_step parse buf) st [i..<n])) buf) =
           rest (cstate_of st) (take (i - start st) (drop (start st) buf)) (take (n - i) (drop i buf))
       \<and> cstate_of (foldl (scan_step parse buf) st [i..<n]) =
           fin (cstate_of st) (take (n - i) (drop i buf))"
  using assms
proof (induction "n - i" arbitrary: i st)
  case 0
  then show ?case by simp
next
  case (Suc k)
  then have lt: "i < n" and len: "i < length buf" by simp_all
  let ?c = "buf ! i"
  let ?st1 = "scan_step parse buf st i"
  let ?cur = "take (i - start st) (drop (start st) buf)"
  have upt: "[i..<n] = i # [Suc i..<n]" using lt by (simp add: upt_conv_Cons)
  have tx: "take (n - i) (drop i buf) = ?c # take (n - Suc i) (drop (Suc i) buf)"
    using lt len by (metis Cons_nth_drop_Suc Suc_diff_Suc take_Suc_Cons)
  have k: "k = n - Suc i" using Suc.hyps(2) by simp
  show ?case
  proof (cases "is_boundary (cstate_of st) ?c")
    case True
    have js: "substring buf (start st) (i + 1) = ?cur @ [?c]"
      using substring_take_drop[of "start st" "i + 1" buf] take_drop_snoc[OF len Suc.prems(3)] len Suc.prems(3)
      by simp
    have s1: "start ?st1 = Suc i" "cstate_of ?st1 = q0"
      using scan_step_boundary[OF True, of parse] True
      by (auto simp: cstate_of_def q0_def split: option.splits)
    have p1: "parsed ?st1 = parsed st @ List.map_filter parse [?cur @ [?c]]"
      using scan_step_boundary[OF True, of parse] js
      by (auto simp: List.map_filter_simps split: option.splits)
    have w1: "warned ?st1 = warned st @ filter (\<lambda>s. parse s = None) [?cur @ [?c]]"
      using scan_step_boundary[OF True, of parse] js
      by (auto split: option.splits)
    have IH: "parsed (foldl (scan_step parse buf) ?st1 [Suc i..<n]) =
           parsed ?st1 @ List.map_filter parse (cands q0 [] (take (n - Suc i) (drop (Suc i) buf)))
       \<and> warned (foldl (scan_step parse buf) ?st1 [Suc i..<n]) =
           warned ?st1 @ filter (\<lambda>s. parse s = None) (cands q0 [] (take (n - Suc i) (drop (Suc i) buf)))
       \<and> start (foldl (scan_step parse buf) ?st1 [Suc i..<n]) \<le> n
       \<and> take (n - start (foldl (scan_step parse buf) ?st1 [Suc i..<n]))
            (drop (start (foldl (scan_step parse buf) ?st1 [Suc i..<n])) buf) =
           rest q0 [] (take (n - Suc i) (drop (Suc i) buf))
       \<and> cstate_of (foldl (scan_step parse buf) ?st1 [Suc i..<n]) =
           fin q0 (take (n - Suc i) (drop (Suc i) buf))"
      using Suc.hyps(1)[OF k, of ?st1] lt Suc.prems(2) s1 by simp
    show ?thesis
      using IH True by (simp add: upt tx p1 w1 List.map_filter_def)
  next
    case False
    have s1: "start ?st1 = start st" "cstate_of ?st1 = cstep (cstate_of st) ?c"
          "parsed ?st1 = parsed st" "warned ?st1 = warned st"
      using scan_step_other[OF False, of parse] by simp_all
    have cur1: "take (Suc i - start st) (drop (start st) buf) = ?cur @ [?c]"
      using take_drop_snoc[OF len Suc.prems(3)] .
    have IH: "parsed (foldl (scan_step parse buf) ?st1 [Suc i..<n]) =
           parsed st @ List.map_filter parse
             (cands (cstep (cstate_of st) ?c) (?cur @ [?c]) (take (n - Suc i) (drop (Suc i) buf)))
       \<and> warned (foldl (scan_step parse buf) ?st1 [Suc i..<n]) =
           warned st @ filter (\<lambda>s. parse s = None)
             (cands (cstep (cstate_of st) ?c) (?cur @ [?c]) (take (n - Suc i) (drop (Suc i) buf)))
       \<and> start (foldl (scan_step parse buf) ?st1 [Suc i..<n]) \<le> n
       \<and> take (n - start (foldl (scan_step parse buf) ?st1 [Suc i..<n]))
            (drop (start (foldl (scan_step parse buf) ?st1 [Suc i..<n])) buf) =
           rest (cstep (cstate_of st) ?c) (?cur @ [?c]) (take (n - Suc i) (drop (Suc i) buf))
       \<and> cstate_of (foldl (scan_step parse buf) ?st1 [Suc i..<n]) =
           fin (cstep (cstate_of st) ?c) (take (n - Suc i) (drop (Suc i) buf))"
      using Suc.hyps(1)[OF k, of ?st1] lt Suc.prems(2,3) s1 cur1 by simp
    show ?thesis
      using IH False by (simp add: upt tx)
  qed
qed

lemma scan_upto_cands:
  assumes "n \<le> length buf"
  shows "parsed (scan_upto parse buf n) = List.map_filter parse (cands q0 [] (take n buf))"
    and "warned (scan_upto parse buf n) = filter (\<lambda>s. parse s = None) (cands q0 [] (take n buf))"
    and "start (scan_upto parse buf n) \<le> n"
    and "take (n - start (scan_upto parse buf n)) (drop (start (scan_upto parse buf n)) buf) = rest q0 [] (take n buf)"
    and "cstate_of (scan_upto parse buf n) = fin q0 (take n buf)"
  using scan_bridge[of 0 n buf scan_init parse] assms
  by (simp_all add: scan_upto_def scan_init_def cstate_of_def q0_def)

lemma parseJSONStream_cands:
  "parseJSONStream parse buf = (List.map_filter parse (cands q0 [] buf), rest q0 [] buf)"
  using scan_upto_cands(1,3,4)[of "length buf" buf parse]
  by (simp add: parseJSONStream_def Let_def substring_from_def min_def)

lemma scan_append:
  "cands q cur (a @ b) = cands q cur a @ cands (fin q a) (rest q cur a) b"
  "rest q cur (a @ b) = rest (fin q a) (rest q cur a) b"
  "fin q (a @ b) = fin (fin q a) b"
  by (induction a arbitrary: q cur) simp_all

lemma settled_Nil: "settled [] q0"
  by (simp add: settled_def)

lemma settled_snoc:
  assumes "settled cur q" "\<not> is_boundary q c"
  shows "settled (cur @ [c]) (cstep q c)"
  using assms by (simp add: settled_def scan_append)

lemma settled_rest:
  assumes "settled cur q"
  shows "settled (rest q cur a) (fin q a)"
  using assms
proof (induction a arbitrary: q cur)
  case Nil
  then show ?case by simp
next
  case (Cons c a)
  then show ?case by (simp add: settled_Nil settled_snoc)
qed

lemma settled_resume:
  assumes "settled r q"
  shows "cands q0 [] (r @ b) = cands q r b" "rest q0 [] (r @ b) = rest q r b"
  using assms by (simp_all add: settled_def scan_append)

lemma cands_split:
  "cands q0 [] (a @ b) = cands q0 [] a @ cands q0 [] (rest q0 [] a @ b)"
  "rest q0 [] (a @ b) = rest q0 [] (rest q0 [] a @ b)"
  using settled_resume[OF settled_rest[OF settled_Nil], of a b]
  by (simp_all add: scan_append)

lemma map_filter_append:
  "List.map_filter f (xs @ ys) = List.map_filter f xs @ List.map_filter f ys"
  by (simp add: List.map_filter_def)

lemma parseJSONStream_append:
  "parseJSONStream parse (a @ b) =
     (fst (parseJSONStream parse a) @ fst (parseJSONStream parse (snd (parseJSONStream parse a) @ b)),
      snd (parseJSONStream parse (snd (parseJSONStream parse a) @ b)))"
  unfolding parseJSONStream_cands
  using cands_split[of a b] by (simp add: map_filter_append)

lemma read_objects_resume:
  "read_objects parse (snd (parseJSONStream parse pre)) chunks =
     (drop (length (fst (parseJSONStream parse pre))) (fst (parseJSONStream parse (pre @ concat chunks))),
      snd (parseJSONStream parse (pre @ concat chunks)))"
proof (induction chunks arbitrary: pre)
  case Nil
  then show ?case by simp
next
  case (Cons c cs)
  have "parseJSONStream parse (pre @ c) =
     (fst (parseJSONStream parse pre) @ fst (parseJSONStream parse (snd (parseJSONStream parse pre) @ c)),
      snd (parseJSONStream parse (snd (parseJSONStream parse pre) @ c)))"
    by (rule parseJSONStream_append)
  moreover obtain p r where pr: "parseJSONStream parse (snd (parseJSONStream parse pre) @ c) = (p, r)"
    by (cases "parseJSONStream parse (snd (parseJSONStream parse pre) @ c)")
  ultimately have pc: "parseJSONStream parse (pre @ c) = (fst (parseJSONStream parse pre) @ p, r)"
    by simp
  have full: "fst (parseJSONStream parse (pre @ c @ concat cs)) =
      fst (parseJSONStream parse pre) @ p @ fst (parseJSONStream parse (r @ concat cs))"
      "snd (parseJSONStream parse (pre @ c @ concat cs)) = snd (parseJSONStream parse (r @ concat cs))"
    using parseJSONStream_append[of parse "pre @ c" "concat cs"] pc by simp_all
  have "read_objects parse r cs =
     (drop (length (fst (parseJSONStream parse pre) @ p)) (fst (parseJSONStream parse ((pre @ c) @ concat cs))),
      snd (parseJSONStream parse ((pre @ c) @ concat cs)))"
    using Cons.IH[of "pre @ c"] pc by simp
  then show ?case using pr full by (simp add: case_prod_beta)
qed

lemma parseJSONStream_Nil: "parseJSONStream parse [] = ([], [])"
  by (simp add: parseJSONStream_cands)

lemma read_objects_concat:
  "read_objects parse [] chunks = parseJSONStream parse (concat chunks)"
  using read_objects_resume[of parse "[]" chunks] by (simp add: parseJSONStream_Nil)



lemma scan_upto_Suc:
  "scan_upto parse buf (Suc n) = scan_step parse buf (scan_upto parse buf n) n"
  by (simp add: scan_upto_def)





section \<open>\<^verbatim>\<open>JSON.parse\<close>: lemmas\<close>

text \<open>
  Every token is cut from the front of the text and is not empty, so the fuel of
  \<open>lex\<close> is enough; and a text that ends with a closing brace parses, if it parses at
  all, to an object.
\<close>

lemma lex_string_ends:
  "lex_string pend acc cs = Some (s, r) \<Longrightarrow> \<exists>pre. cs = pre @ dquote # r"
proof (induction pend acc cs rule: lex_string.induct)
  case (1 pend acc)
  then show ?case by simp
next
  case (2 pend acc c cs)
  show ?case
  proof (cases "c = dquote")
    case True
    then show ?thesis using 2(4) by (intro exI[of _ "[]"]) simp
  next
    case nq: False
    show ?thesis
    proof (cases "c = backslash")
      case True
      then obtain e cs1 where cs: "cs = e # cs1" using 2(4) nq by (cases cs) auto
      show ?thesis
      proof (cases "e = CHR ''u''")
        case u: True
        then obtain h1 h2 h3 h4 cs2 n where cs1: "cs1 = h1 # h2 # h3 # h4 # cs2"
          and hx: "hex4 h1 h2 h3 h4 = Some n"
          using 2(4) nq True cs by (auto split: list.splits option.splits)
        have "lex_string (fst (code_unit pend acc n)) (snd (code_unit pend acc n)) cs2 = Some (s, r)"
          using 2(4) nq True cs u cs1 hx by simp
        then obtain pre where "cs2 = pre @ dquote # r"
          using 2(1)[OF nq True cs u, of h1 "h2 # h3 # h4 # cs2" h2 "h3 # h4 # cs2" h3 "h4 # cs2" h4 cs2 n]
            cs1 hx by auto
        then have "c # cs = (c # e # h1 # h2 # h3 # h4 # pre) @ dquote # r"
          using cs cs1 by simp
        then show ?thesis by blast
      next
        case nu: False
        then obtain d where d: "simple_escape e = Some d"
          using 2(4) nq True cs by (auto split: option.splits)
        have "lex_string None (d # flush pend acc) cs1 = Some (s, r)"
          using 2(4) nq True cs nu d by simp
        then obtain pre where "cs1 = pre @ dquote # r"
          using 2(2)[OF nq True cs nu d] by auto
        then have "c # cs = (c # e # pre) @ dquote # r" using cs by simp
        then show ?thesis by blast
      qed
    next
      case nb: False
      then have ge: "\<not> (of_char c :: nat) < 0x20" using 2(4) nq by (auto split: if_splits)
      have "lex_string None (c # flush pend acc) cs = Some (s, r)"
        using 2(4) nq nb ge by simp
      then obtain pre where "cs = pre @ dquote # r" using 2(3)[OF nq nb ge] by auto
      then have "c # cs = (c # pre) @ dquote # r" by simp
      then show ?thesis by blast
    qed
  qed
qed

lemma digits_last:
  assumes "\<forall>x\<in>set xs. is_digit x" "xs \<noteq> []"
  shows "is_digit (last xs)"
  using assms by simp

lemma takeWhile_digits: "\<forall>x\<in>set (takeWhile is_digit xs). is_digit x"
  by (auto dest: set_takeWhileD)

lemma lex_int_ends:
  assumes "lex_int xs = Some (a, b)"
  shows "xs = a @ b \<and> a \<noteq> [] \<and> is_digit (last a)"
proof (cases xs)
  case Nil
  then show ?thesis using assms by (simp add: lex_int_def)
next
  case (Cons d r)
  show ?thesis
  proof (cases "d = CHR ''0''")
    case True
    then show ?thesis using assms Cons by (auto simp: lex_int_def is_digit_def)
  next
    case False
    then have d: "is_digit d" and a: "a = d # takeWhile is_digit r" and b: "b = dropWhile is_digit r"
      using assms Cons by (auto simp: lex_int_def split: if_splits)
    have "\<forall>x\<in>set a. is_digit x" using d a takeWhile_digits by auto
    then have "is_digit (last a)" using a by (intro digits_last) auto
    then show ?thesis using a b Cons by simp
  qed
qed

lemma lex_frac_ends:
  assumes "lex_frac xs = Some (a, b)"
  shows "xs = a @ b \<and> (a = [] \<or> is_digit (last a))"
proof (cases xs)
  case Nil
  then show ?thesis using assms by (simp add: lex_frac_def)
next
  case (Cons d r)
  show ?thesis
  proof (cases "d = CHR ''.''")
    case True
    then have ne: "takeWhile is_digit r \<noteq> []" and a: "a = d # takeWhile is_digit r"
      and b: "b = dropWhile is_digit r"
      using assms Cons by (auto simp: lex_frac_def split: if_splits)
    have "last a = last (takeWhile is_digit r)" using a ne by simp
    moreover have "is_digit (last (takeWhile is_digit r))"
      using takeWhile_digits ne by (intro digits_last) auto
    ultimately show ?thesis using a b Cons by simp
  next
    case False
    then show ?thesis using assms Cons by (simp add: lex_frac_def)
  qed
qed

lemma lex_exp_ends:
  assumes "lex_exp xs = Some (a, b)"
  shows "xs = a @ b \<and> (a = [] \<or> is_digit (last a))"
proof (cases xs)
  case Nil
  then show ?thesis using assms by (simp add: lex_exp_def)
next
  case (Cons e r)
  show ?thesis
  proof (cases "e = CHR ''e'' \<or> e = CHR ''E''")
    case True
    let ?sign = "(case r of [] \<Rightarrow> [] | s # _ \<Rightarrow> if s = CHR ''+'' \<or> s = CHR ''-'' then [s] else [])"
    let ?r1 = "drop (length ?sign) r"
    have r: "r = ?sign @ ?r1" by (cases r) auto
    have "lex_exp xs = (if takeWhile is_digit ?r1 = [] then None
                        else Some (e # ?sign @ takeWhile is_digit ?r1, dropWhile is_digit ?r1))"
      using Cons True by (simp add: lex_exp_def Let_def)
    then have ne: "takeWhile is_digit ?r1 \<noteq> []" and a: "a = e # ?sign @ takeWhile is_digit ?r1"
      and b: "b = dropWhile is_digit ?r1"
      using assms by (simp_all split: if_splits)
    have "last a = last (takeWhile is_digit ?r1)" using a ne by simp
    moreover have "is_digit (last (takeWhile is_digit ?r1))"
      using takeWhile_digits ne by (intro digits_last) auto
    moreover have "xs = a @ b"
      unfolding a b Cons using r by (metis Cons_eq_appendI append.assoc takeWhile_dropWhile_id)
    ultimately show ?thesis by simp
  next
    case False
    then show ?thesis using assms Cons by (simp add: lex_exp_def)
  qed
qed

lemma lex_number_ends:
  assumes "lex_number cs = Some (n, r)"
  shows "cs = n @ r \<and> n \<noteq> [] \<and> is_digit (last n)"
proof -
  let ?sign = "(case cs of [] \<Rightarrow> [] | s # _ \<Rightarrow> if s = CHR ''-'' then [s] else [])"
  have cs: "cs = ?sign @ drop (length ?sign) cs"
    by (cases cs) auto
  have "lex_number cs =
     (case lex_int (drop (length ?sign) cs) of
           None \<Rightarrow> None
         | Some (i, r1) \<Rightarrow>
             (case lex_frac r1 of
                None \<Rightarrow> None
              | Some (f, r2) \<Rightarrow>
                  (case lex_exp r2 of
                     None \<Rightarrow> None
                   | Some (e, r3) \<Rightarrow> Some (?sign @ i @ f @ e, r3))))"
    by (simp add: lex_number_def Let_def)
  then obtain i r1 f r2 e where
    i: "lex_int (drop (length ?sign) cs) = Some (i, r1)" and f: "lex_frac r1 = Some (f, r2)"
    and e: "lex_exp r2 = Some (e, r)" and n: "n = ?sign @ i @ f @ e"
    using assms by (auto split: option.splits)
  note ie = lex_int_ends[OF i] and fe = lex_frac_ends[OF f] and ee = lex_exp_ends[OF e]
  have "drop (length ?sign) cs = i @ f @ e @ r" using ie fe ee by simp
  then have "cs = n @ r" using cs n by (metis append.assoc)
  moreover have "n \<noteq> []" using ie n by simp
  moreover have "is_digit (last n)"
  proof (cases "e = []")
    case False
    then show ?thesis using ee n by simp
  next
    case True
    show ?thesis
    proof (cases "f = []")
      case False
      then show ?thesis using fe n True by simp
    next
      case f0: True
      then show ?thesis using ie n True by simp
    qed
  qed
  ultimately show ?thesis by simp
qed

lemma lex_token_Cons:
  assumes "cs = c # r"
  shows "lex_token cs =
     (if c = CHR ''{'' then Some (TLBrace, r)
      else if c = CHR ''}'' then Some (TRBrace, r)
      else if c = CHR ''['' then Some (TLBracket, r)
      else if c = CHR '']'' then Some (TRBracket, r)
      else if c = CHR '':'' then Some (TColon, r)
      else if c = CHR '','' then Some (TComma, r)
      else if c = dquote then map_option (\<lambda>(s, r'). (TStr s, r')) (lex_string None [] r)
      else if c = CHR ''-'' \<or> is_digit c then
        map_option (\<lambda>(n, r'). (TNum n, r')) (lex_number cs)
      else if starts_with ''true'' cs then Some (TTrue, drop 4 cs)
      else if starts_with ''false'' cs then Some (TFalse, drop 5 cs)
      else if starts_with ''null'' cs then Some (TNull, drop 4 cs)
      else None)"
  unfolding lex_token_def assms by simp

lemma starts_with_split: "starts_with w cs \<Longrightarrow> cs = w @ drop (length w) cs"
  by (metis append_take_drop_id starts_with_def)

lemma lex_token_ends:
  assumes "lex_token cs = Some (t, r)"
  shows "\<exists>pre. cs = pre @ r \<and> pre \<noteq> [] \<and> (last pre = CHR ''}'' \<longrightarrow> t = TRBrace)"
proof (cases cs)
  case Nil
  then show ?thesis using assms by (simp add: lex_token_def)
next
  case (Cons c cs')
  note eq = assms[unfolded lex_token_Cons[OF Cons]]
  let ?single = "{CHR ''{'', CHR ''}'', CHR ''['', CHR '']'', CHR '':'', CHR '',''}"
  consider (single) "c \<in> ?single"
    | (str) "c \<notin> ?single" "c = dquote"
    | (num) "c \<notin> ?single" "c \<noteq> dquote" "c = CHR ''-'' \<or> is_digit c"
    | (lit) "c \<notin> ?single" "c \<noteq> dquote" "\<not> (c = CHR ''-'' \<or> is_digit c)"
    by blast
  then show ?thesis
  proof cases
    case single
    then consider "c = CHR ''{''" | "c = CHR ''}''" | "c = CHR ''[''" | "c = CHR '']''"
      | "c = CHR '':''" | "c = CHR '',''"
      by blast
    then have "r = cs' \<and> (c = CHR ''}'' \<longrightarrow> t = TRBrace)"
    proof cases
      case 1 then show ?thesis using eq by simp
    next
      case 2 then show ?thesis using eq by simp
    next
      case 3 then show ?thesis using eq by simp
    next
      case 4 then show ?thesis using eq by simp
    next
      case 5 then show ?thesis using eq by simp
    next
      case 6 then show ?thesis using eq by simp
    qed
    then have "cs = [c] @ r" "last [c] = CHR ''}'' \<longrightarrow> t = TRBrace" using Cons by simp_all
    then show ?thesis by blast
  next
    case str
    then have "map_option (\<lambda>(s, r'). (TStr s, r')) (lex_string None [] cs') = Some (t, r)"
      using eq by simp
    then obtain s where "lex_string None [] cs' = Some (s, r)" by auto
    then obtain pre where "cs' = pre @ dquote # r" using lex_string_ends by blast
    then have "cs = (c # pre @ [dquote]) @ r" using Cons by simp
    moreover have "last (c # pre @ [dquote]) \<noteq> CHR ''}''" by (simp add: dquote_def)
    ultimately show ?thesis by blast
  next
    case num
    then have "map_option (\<lambda>(n, r'). (TNum n, r')) (lex_number cs) = Some (t, r)"
      using eq by simp
    then obtain n where "lex_number cs = Some (n, r)" by auto
    then have "cs = n @ r" "n \<noteq> []" "is_digit (last n)" using lex_number_ends by blast+
    moreover have "\<not> is_digit (CHR ''}'')" by (simp add: is_digit_def)
    ultimately show ?thesis by metis
  next
    case lit
    then have le: "(if starts_with ''true'' cs then Some (TTrue, drop 4 cs)
      else if starts_with ''false'' cs then Some (TFalse, drop 5 cs)
      else if starts_with ''null'' cs then Some (TNull, drop 4 cs)
      else None) = Some (t, r)"
      using eq by simp
    have "\<exists>w n. (w = ''true'' \<or> w = ''false'' \<or> w = ''null'') \<and> starts_with w cs
             \<and> n = length w \<and> r = drop n cs"
    proof (cases "starts_with ''true'' cs")
      case True
      then have "r = drop 4 cs" using le by auto
      moreover have "4 = length ''true''" by simp
      ultimately show ?thesis using True by blast
    next
      case nt: False
      show ?thesis
      proof (cases "starts_with ''false'' cs")
        case True
        then have "r = drop 5 cs" using le nt by auto
        moreover have "5 = length ''false''" by simp
        ultimately show ?thesis using True by blast
      next
        case nf: False
        then have n: "starts_with ''null'' cs" using le nt by (simp split: if_splits)
        then have "r = drop 4 cs" using le nt nf by auto
        moreover have "4 = length ''null''" by simp
        ultimately show ?thesis using n by blast
      qed
    qed
    then obtain w n where w: "w = ''true'' \<or> w = ''false'' \<or> w = ''null''"
      "starts_with w cs" "n = length w" "r = drop n cs"
      by blast
    have "cs = w @ r" using w(2,3,4) starts_with_split by simp
    moreover have "w \<noteq> []" "last w \<noteq> CHR ''}''" using w(1) by auto
    ultimately show ?thesis by blast
  qed
qed

lemma lex_token_shorter:
  assumes "lex_token cs = Some (t, r)"
  shows "length r < length cs"
proof -
  obtain pre where "cs = pre @ r" "pre \<noteq> []" using lex_token_ends[OF assms] by blast
  then show ?thesis by (cases pre) simp_all
qed

lemma lex_tokens_fuel:
  "length s \<le> n \<Longrightarrow> length s \<le> m \<Longrightarrow> lex_tokens n s = lex_tokens m s"
proof (induction n s arbitrary: m rule: lex_tokens.induct)
  case (1 fuel)
  show ?case by simp
next
  case (2 c cs)
  from 2(1) show ?case by simp
next
  case (3 fuel c cs)
  from 3(4) obtain m' where m: "m = Suc m'" by (cases m) simp_all
  have len: "length cs \<le> fuel" "length cs \<le> m'" using 3(3,4) m by simp_all
  show ?case
  proof (cases "is_ws c")
    case True
    have "lex_tokens fuel cs = lex_tokens m' cs"
      using 3(1)[OF True len] .
    then show ?thesis using True m by simp
  next
    case False
    show ?thesis
    proof (cases "lex_token (c # cs)")
      case None
      then show ?thesis using False m by simp
    next
      case (Some a)
      obtain t r where a: "a = (t, r)" by (cases a)
      have "length r < length (c # cs)" using lex_token_shorter Some a by blast
      then have lr: "length r \<le> fuel" "length r \<le> m'" using len by simp_all
      have "lex_tokens fuel r = lex_tokens m' r"
        using 3(2)[OF False Some a[symmetric] lr] .
      then show ?thesis using False Some a m by simp
    qed
  qed
qed

lemma lex_tokens_enough:
  "length s \<le> n \<Longrightarrow> lex_tokens n s = lex s"
  using lex_tokens_fuel[of s n "length s"] by (simp add: lex_def)






section \<open>The tokenizer with \<^verbatim>\<open>JSON.parse\<close>: every parsed chunk is an object\<close>




section \<open>The dispatch of events: lemmas\<close>

lemma get_prop_not_null: "obj \<noteq> JNull \<Longrightarrow> \<exists>d. get_prop obj k = Inr d"
  by (cases obj) (simp_all add: get_prop_def)

lemma has_type_not_null: "has_type obj k \<Longrightarrow> obj \<noteq> JNull"
  by (auto simp: has_type_def get_prop_def)

lemma has_type_unique: "has_type obj k \<Longrightarrow> has_type obj k' \<Longrightarrow> k = k'"
  by (simp add: has_type_def)

lemma keep_phase: "\<not> isReasoningPhase v \<Longrightarrow> v\<lparr>isReasoningPhase := False\<rparr> = v"
  by (cases v) simp

lemma dispatch_reasoning:
  assumes "has_type obj ''reasoning''"
  shows "dispatch nts v obj =
     Inr (v\<lparr>accumulatedReasoning := accumulatedReasoning v @ data_text nts obj\<rparr>,
          [SetReasoning (accumulatedReasoning v @ data_text nts obj)])"
proof -
  obtain d where "get_prop obj ''data'' = Inr d"
    using get_prop_not_null has_type_not_null assms by blast
  then show ?thesis
    using assms by (simp add: dispatch_def has_type_def data_text_def append_data_def Let_def)
qed

lemma dispatch_content:
  assumes "has_type obj ''content''"
  shows "dispatch nts v obj =
     Inr (v\<lparr>isReasoningPhase := False,
             accumulatedContent := accumulatedContent v @ data_text nts obj\<rparr>,
          (if isReasoningPhase v then [SetReasoningComplete] else [])
            @ [SetContent (accumulatedContent v @ data_text nts obj)])"
proof -
  obtain d where "get_prop obj ''data'' = Inr d"
    using get_prop_not_null has_type_not_null assms by blast
  then show ?thesis
    using assms
    by (simp add: dispatch_def has_type_def data_text_def append_data_def Let_def keep_phase)
qed

lemma dispatch_metadata:
  assumes "has_type obj ''metadata''"
  shows "\<exists>d. dispatch nts v obj = Inr (v, [SetMetadata d])"
proof -
  obtain d where "get_prop obj ''data'' = Inr d"
    using get_prop_not_null has_type_not_null assms by blast
  then show ?thesis
    using assms by (simp add: dispatch_def has_type_def)
qed

lemma dispatch_other:
  assumes "obj \<noteq> JNull" "\<not> has_type obj ''reasoning''" "\<not> has_type obj ''content''"
    "\<not> has_type obj ''metadata''"
  shows "dispatch nts v obj = Inr (v, [])"
proof -
  obtain ty where "get_prop obj ''type'' = Inr ty"
    using get_prop_not_null assms(1) by blast
  then show ?thesis
    using assms(2-) by (simp add: dispatch_def has_type_def)
qed

lemma dispatch_all_Cons:
  assumes "dispatch nts v obj = Inr (v1, us1)"
  shows "dispatch_all nts v (obj # objs) =
     (fst (dispatch_all nts v1 objs), us1 @ fst (snd (dispatch_all nts v1 objs)),
      snd (snd (dispatch_all nts v1 objs)))"
  using assms by (simp add: case_prod_beta)

lemma dispatch_by_kind:
  assumes "obj \<noteq> JNull"
  shows "\<exists>v1 us1. dispatch nts v obj = Inr (v1, us1)
     \<and> aiMessageId v1 = aiMessageId v \<and> buffer v1 = buffer v
     \<and> accumulatedContent v1 =
         accumulatedContent v @ (if has_type obj ''content'' then data_text nts obj else [])
     \<and> accumulatedReasoning v1 =
         accumulatedReasoning v @ (if has_type obj ''reasoning'' then data_text nts obj else [])
     \<and> isReasoningPhase v1 = (isReasoningPhase v \<and> \<not> has_type obj ''content'')
     \<and> us1 =
         (case kind_of obj of
            KReasoning \<Rightarrow> [SetReasoning (accumulatedReasoning v1)]
          | KContent \<Rightarrow> (if isReasoningPhase v then [SetReasoningComplete] else [])
                          @ [SetContent (accumulatedContent v1)]
          | KMetadata \<Rightarrow> [SetMetadata (projr (get_prop obj ''data''))]
          | KOther \<Rightarrow> [])"
proof (cases "kind_of obj")
  case KReasoning
  then have h: "has_type obj ''reasoning''" by (simp add: kind_of_def split: if_splits)
  then have "\<not> has_type obj ''content''" using has_type_unique by fastforce
  then show ?thesis using dispatch_reasoning[OF h, of nts v] KReasoning h by simp
next
  case KContent
  then have h: "has_type obj ''content''" by (simp add: kind_of_def split: if_splits)
  then have "\<not> has_type obj ''reasoning''" using has_type_unique by fastforce
  then show ?thesis using dispatch_content[OF h, of nts v] KContent h by simp
next
  case KMetadata
  then have h: "has_type obj ''metadata''" by (simp add: kind_of_def split: if_splits)
  then have n: "\<not> has_type obj ''reasoning''" "\<not> has_type obj ''content''"
    using has_type_unique by fastforce+
  obtain d where "get_prop obj ''data'' = Inr d"
    using get_prop_not_null assms by blast
  then show ?thesis using h n KMetadata
    by (simp add: dispatch_def has_type_def)
next
  case KOther
  then have n: "\<not> has_type obj ''reasoning''" "\<not> has_type obj ''content''"
    "\<not> has_type obj ''metadata''"
    by (simp_all add: kind_of_def split: if_splits)
  then show ?thesis using dispatch_other[OF assms n, of nts v] KOther by simp
qed

lemma apply_all_append: "apply_all (us @ us') m = apply_all us' (apply_all us m)"
  by (simp add: apply_all_def)

lemma apply_all_simps:
  "apply_all [] m = m"
  "apply_all (u # us) m = apply_all us (apply_update u m)"
  by (simp_all add: apply_all_def)

lemma apply_update_frame:
  "msg_id (apply_update u m) = msg_id m"
  "role (apply_update u m) = role m"
  "timestamp (apply_update u m) = timestamp m"
  "isStreaming (apply_update u m) = isStreaming m"
  by (cases u; simp)+

lemma apply_all_frame:
  "msg_id (apply_all us m) = msg_id m"
  "role (apply_all us m) = role m"
  "timestamp (apply_all us m) = timestamp m"
  "isStreaming (apply_all us m) = isStreaming m"
  by (induction us arbitrary: m; simp add: apply_all_simps apply_update_frame)+

lemma setMessages_all_map:
  "setMessages_all aid us msgs = map (\<lambda>m. if msg_id m = aid then apply_all us m else m) msgs"
proof (induction us arbitrary: msgs)
  case Nil
  then show ?case by (simp add: setMessages_all_def apply_all_simps cong: if_cong)
next
  case (Cons u us)
  have "setMessages_all aid (u # us) msgs = setMessages_all aid us (setMessages_by_id aid u msgs)"
    by (simp add: setMessages_all_def)
  then show ?case
    by (simp add: Cons.IH setMessages_by_id_def apply_all_simps apply_update_frame o_def cong: if_cong)
qed

lemma dispatch_all_vars:
  assumes "JNull \<notin> set objs"
  shows "snd (snd (dispatch_all nts v objs)) = None
     \<and> aiMessageId (fst (dispatch_all nts v objs)) = aiMessageId v
     \<and> buffer (fst (dispatch_all nts v objs)) = buffer v
     \<and> accumulatedContent (fst (dispatch_all nts v objs)) =
         accumulatedContent v
           @ concat (map (data_text nts) (filter (\<lambda>x. has_type x ''content'') objs))
     \<and> accumulatedReasoning (fst (dispatch_all nts v objs)) =
         accumulatedReasoning v
           @ concat (map (data_text nts) (filter (\<lambda>x. has_type x ''reasoning'') objs))
     \<and> isReasoningPhase (fst (dispatch_all nts v objs)) =
         (isReasoningPhase v \<and> \<not> (\<exists>x\<in>set objs. has_type x ''content''))"
  using assms
proof (induction objs arbitrary: v)
  case Nil
  then show ?case by simp
next
  case (Cons obj objs)
  then have nn: "obj \<noteq> JNull" and rest: "JNull \<notin> set objs" by auto
  obtain v1 us1 where d: "dispatch nts v obj = Inr (v1, us1)"
    and v1: "aiMessageId v1 = aiMessageId v" "buffer v1 = buffer v"
      "accumulatedContent v1 =
         accumulatedContent v @ (if has_type obj ''content'' then data_text nts obj else [])"
      "accumulatedReasoning v1 =
         accumulatedReasoning v @ (if has_type obj ''reasoning'' then data_text nts obj else [])"
      "isReasoningPhase v1 = (isReasoningPhase v \<and> \<not> has_type obj ''content'')"
    using dispatch_by_kind[OF nn, of nts v] by blast
  show ?case
    using Cons.IH[OF rest, of v1] v1 d
    by (simp add: case_prod_beta)
qed

lemma dispatch_all_effect:
  assumes "JNull \<notin> set objs"
  shows "content (apply_all (fst (snd (dispatch_all nts v objs))) m) =
           (if \<exists>x\<in>set objs. has_type x ''content''
            then accumulatedContent (fst (dispatch_all nts v objs)) else content m)
     \<and> reasoning (apply_all (fst (snd (dispatch_all nts v objs))) m) =
           (if \<exists>x\<in>set objs. has_type x ''reasoning''
            then Some (accumulatedReasoning (fst (dispatch_all nts v objs))) else reasoning m)"
  using assms
proof (induction objs arbitrary: v m)
  case Nil
  then show ?case by (simp add: apply_all_simps)
next
  case (Cons obj objs)
  then have nn: "obj \<noteq> JNull" and rest: "JNull \<notin> set objs" by auto
  obtain v1 us1 where d: "dispatch nts v obj = Inr (v1, us1)"
    and us1: "us1 =
         (case kind_of obj of
            KReasoning \<Rightarrow> [SetReasoning (accumulatedReasoning v1)]
          | KContent \<Rightarrow> (if isReasoningPhase v then [SetReasoningComplete] else [])
                          @ [SetContent (accumulatedContent v1)]
          | KMetadata \<Rightarrow> [SetMetadata (projr (get_prop obj ''data''))]
          | KOther \<Rightarrow> [])"
    using dispatch_by_kind[OF nn, of nts v] by blast
  let ?m1 = "apply_all us1 m"
  have m1: "content ?m1 = (if has_type obj ''content'' then accumulatedContent v1 else content m)"
    "reasoning ?m1 = (if has_type obj ''reasoning'' then Some (accumulatedReasoning v1) else reasoning m)"
    using us1 has_type_unique[of obj "''reasoning''" "''content''"]
    by (auto simp: kind_of_def apply_all_simps split: if_splits)
  have tail: "(\<forall>x\<in>set objs. \<not> has_type x ''content'') \<Longrightarrow>
        accumulatedContent (fst (dispatch_all nts v1 objs)) = accumulatedContent v1"
      "(\<forall>x\<in>set objs. \<not> has_type x ''reasoning'') \<Longrightarrow>
        accumulatedReasoning (fst (dispatch_all nts v1 objs)) = accumulatedReasoning v1"
    using dispatch_all_vars[OF rest, of nts v1]
    by (simp_all add: filter_False)
  show ?case
    using Cons.IH[OF rest, of v1 ?m1] m1 tail d
    by (auto simp: case_prod_beta apply_all_append)
qed


lemma begin_facts:
  assumes "handleSendMessage_begin now1 now2 p = (p0, Some v0)"
  shows "messages p0 \<noteq> []"
    and "msg_id (last (messages p0)) = aiMessageId v0"
    and "role (last (messages p0)) = assistant"
    and "content (last (messages p0)) = []"
    and "isStreaming (last (messages p0)) = Some True"
    and "isReasoningComplete (last (messages p0)) = Some False"
    and "reasoning (last (messages p0)) = (if isReasoningModel p then Some [] else None)"
    and "accumulatedContent v0 = []" and "accumulatedReasoning v0 = []"
    and "isReasoningPhase v0 = isReasoningModel p" and "buffer v0 = []"
    and "isLoading p0" and "abortControllerRef p0 = Some Controller"
proof -
  have g1: "\<not> ((js_blank (inputValue p) \<and> length (uploadedFiles p) = 0) \<or> isLoading p)"
    using assms unfolding handleSendMessage_begin_def by (metis option.distinct(1) prod.inject)
  have g2: "\<not> (token p = None \<or> token p = Some [])"
    using assms g1 unfolding handleSendMessage_begin_def by (metis option.distinct(1) prod.inject)
  have eq: "p0 = p\<lparr>messages := (messages p @
               [\<lparr>msg_id = decimal now1, content = inputValue p, role = user, timestamp = now1,
                isStreaming = None, reasoning = None, isReasoningComplete = None,
                metadata = None\<rparr>]) @
               [\<lparr>msg_id = decimal (now2 + 1), content = [], role = assistant, timestamp = now2,
                isStreaming = Some True,
                reasoning = (if isReasoningModel p then Some [] else None),
                isReasoningComplete = Some False, metadata = None\<rparr>],
               inputValue := [], uploadedFiles := [], isLoading := True,
               abortControllerRef := Some Controller\<rparr>"
    "v0 = \<lparr>aiMessageId = decimal (now2 + 1), accumulatedContent = [],
                   accumulatedReasoning = [], isReasoningPhase = isReasoningModel p,
                   buffer = []\<rparr>"
    using assms[unfolded handleSendMessage_begin_def if_not_P[OF g1] if_not_P[OF g2] Let_def]
    by simp_all
  show "messages p0 \<noteq> []"
    and "msg_id (last (messages p0)) = aiMessageId v0"
    and "role (last (messages p0)) = assistant"
    and "content (last (messages p0)) = []"
    and "isStreaming (last (messages p0)) = Some True"
    and "isReasoningComplete (last (messages p0)) = Some False"
    and "reasoning (last (messages p0)) = (if isReasoningModel p then Some [] else None)"
    and "accumulatedContent v0 = []" and "accumulatedReasoning v0 = []"
    and "isReasoningPhase v0 = isReasoningModel p" and "buffer v0 = []"
    and "isLoading p0" and "abortControllerRef p0 = Some Controller"
    by (simp_all add: eq)
qed


lemma has_type_object:
  "has_type (JObject [(''type'', JString k), (''data'', d)]) k' = (k = k')"
  by (auto simp: has_type_def get_prop_def)

lemma data_text_object:
  "data_text nts (JObject [(''type'', JString k), (''data'', JString d)]) = d"
  by (simp add: data_text_def get_prop_def append_data_def)

lemma dispatch_null: "\<exists>e. dispatch nts v JNull = Inl e"
  by (simp add: dispatch_def get_prop_def)

lemma dispatch_all_no_error:
  assumes "snd (snd (dispatch_all nts v objs)) = None"
  shows "JNull \<notin> set objs"
  using assms
proof (induction objs arbitrary: v)
  case Nil
  then show ?case by simp
next
  case (Cons obj objs)
  show ?case
  proof (cases "obj = JNull")
    case True
    then show ?thesis using Cons.prems dispatch_null[of nts v] by auto
  next
    case False
    then obtain v1 us1 where d: "dispatch nts v obj = Inr (v1, us1)"
      using dispatch_by_kind[OF False, of nts v] by blast
    then have "snd (snd (dispatch_all nts v1 objs)) = None"
      using Cons.prems by (simp add: case_prod_beta)
    then show ?thesis using Cons.IH False by auto
  qed
qed

lemma dispatch_all_aid: "aiMessageId (fst (dispatch_all nts v objs)) = aiMessageId v"
proof (induction objs arbitrary: v)
  case Nil
  then show ?case by simp
next
  case (Cons obj objs)
  show ?case
  proof (cases "obj = JNull")
    case True
    then show ?thesis using dispatch_null[of nts v] by auto
  next
    case False
    then obtain v1 us1 where d: "dispatch nts v obj = Inr (v1, us1)"
      and a: "aiMessageId v1 = aiMessageId v"
      using dispatch_by_kind[OF False, of nts v] by blast
    then show ?thesis using Cons.IH[of v1] by (simp add: case_prod_beta)
  qed
qed

section \<open>The turn: lemmas\<close>

lemma run_simps:
  "run nts s [] = s"
  "run nts s (ev # evs) = run nts (step nts s ev) evs"
  "run nts s (evs @ evs') = run nts (run nts s evs) evs'"
  by (simp_all add: run_def)

lemma throws_facts:
  "control (throws e s) = Returned"
  "\<not> isLoading (page_of (throws e s))"
  "abortControllerRef (page_of (throws e s)) = None"
  "vars (throws e s) = vars s"
  by (simp_all add: throws_def finally_block_def)

lemma finished_facts:
  "control (finished s) = Returned"
  "\<not> isLoading (page_of (finished s))"
  "abortControllerRef (page_of (finished s)) = None"
  "vars (finished s) = vars s"
  by (simp_all add: finished_def finally_block_def)

lemma cancelled_facts:
  "abortControllerRef (page_of s) \<noteq> None \<Longrightarrow> control (cancelled s) = Returned"
  "control (cancelled s) = Returned \<or> cancelled s = s"
  "control (cancelled s) = Returned \<and> control s \<noteq> Returned \<Longrightarrow>
     \<not> isLoading (page_of (cancelled s)) \<and> abortControllerRef (page_of (cancelled s)) = None"
  "vars (cancelled s) = vars s"
  by (auto simp: cancelled_def throws_facts split: option.splits)

lemma on_chunk_cases:
  "(control (on_chunk nts chunk s) = Returned
      \<and> \<not> isLoading (page_of (on_chunk nts chunk s))
      \<and> abortControllerRef (page_of (on_chunk nts chunk s)) = None)
   \<or> (snd (snd (dispatch_all nts ((vars s)\<lparr>buffer := snd (parseJSONStream JSON_parse (buffer (vars s) @ chunk))\<rparr>)
                (fst (parseJSONStream JSON_parse (buffer (vars s) @ chunk))))) = None
       \<and> on_chunk nts chunk s =
           s\<lparr>vars := fst (dispatch_all nts ((vars s)\<lparr>buffer := snd (parseJSONStream JSON_parse (buffer (vars s) @ chunk))\<rparr>)
                (fst (parseJSONStream JSON_parse (buffer (vars s) @ chunk)))),
             page_of := (page_of s)\<lparr>messages :=
               setMessages_all (aiMessageId (vars s))
                 (fst (snd (dispatch_all nts ((vars s)\<lparr>buffer := snd (parseJSONStream JSON_parse (buffer (vars s) @ chunk))\<rparr>)
                    (fst (parseJSONStream JSON_parse (buffer (vars s) @ chunk))))))
                 (messages (page_of s))\<rparr>\<rparr>)"
  by (auto simp: on_chunk_def Let_def throws_facts case_prod_beta split: option.splits)

lemma step_cleared:
  assumes "cleared s"
  shows "cleared (step nts s ev)"
proof (cases "control s")
  case Returned
  then show ?thesis
    using assms by (cases ev) (auto simp: step.simps cleared_def handleCancelRequest_def)
next
  case AwaitFetch
  then show ?thesis
    using cancelled_facts(2,3)[of s]
    by (cases ev) (auto simp: step.simps cleared_def throws_facts finished_facts)
next
  case (AwaitText status)
  then show ?thesis
    using cancelled_facts(2,3)[of s]
    by (cases ev) (auto simp: step.simps cleared_def throws_facts)
next
  case AwaitRead
  show ?thesis
  proof (cases ev)
    case (ReadChunk c)
    then have "step nts s ev = on_chunk nts c s" using AwaitRead by (simp add: step.simps)
    then show ?thesis using on_chunk_cases[of nts c s] AwaitRead by (auto simp: cleared_def)
  qed (use AwaitRead cancelled_facts(2,3)[of s] in
        \<open>auto simp: step.simps cleared_def throws_facts finished_facts\<close>)
qed

lemma run_cleared: "cleared s \<Longrightarrow> cleared (run nts s evs)"
  by (induction evs arbitrary: s) (simp_all add: run_simps step_cleared)

lemma step_Returned:
  assumes "control s = Returned" "abortControllerRef (page_of s) = None"
  shows "step nts s ev = s"
  using assms by (cases ev) (simp_all add: step.simps handleCancelRequest_def)

lemma run_Returned:
  assumes "control s = Returned" "abortControllerRef (page_of s) = None"
  shows "run nts s evs = s"
  using assms by (induction evs) (simp_all add: run_simps step_Returned)

lemma on_chunk_aid: "aiMessageId (vars (on_chunk nts chunk s)) = aiMessageId (vars s)"
  using dispatch_all_aid[of nts "(vars s)\<lparr>buffer := snd (parseJSONStream JSON_parse (buffer (vars s) @ chunk))\<rparr>"
      "fst (parseJSONStream JSON_parse (buffer (vars s) @ chunk))"]
  by (auto simp: on_chunk_def Let_def throws_facts case_prod_beta split: option.splits)

lemma step_aid: "aiMessageId (vars (step nts s ev)) = aiMessageId (vars s)"
  by (cases "control s"; cases ev)
     (simp_all add: step.simps throws_facts finished_facts cancelled_facts on_chunk_aid)

lemma run_aid: "aiMessageId (vars (run nts s evs)) = aiMessageId (vars s)"
  by (induction evs arbitrary: s) (simp_all add: run_simps step_aid)

lemma on_chunk_live:
  assumes "live s" "control s = AwaitRead"
  shows "live (on_chunk nts chunk s)"
proof -
  let ?objs = "fst (parseJSONStream JSON_parse (buffer (vars s) @ chunk))"
  let ?v = "(vars s)\<lparr>buffer := snd (parseJSONStream JSON_parse (buffer (vars s) @ chunk))\<rparr>"
  let ?us = "fst (snd (dispatch_all nts ?v ?objs))"
  let ?m = "last (messages (page_of s))"
  from on_chunk_cases[of nts chunk s] show ?thesis
  proof
    assume "control (on_chunk nts chunk s) = Returned
      \<and> \<not> isLoading (page_of (on_chunk nts chunk s))
      \<and> abortControllerRef (page_of (on_chunk nts chunk s)) = None"
    then show ?thesis by (simp add: live_def)
  next
    assume ok: "snd (snd (dispatch_all nts ?v ?objs)) = None
       \<and> on_chunk nts chunk s =
           s\<lparr>vars := fst (dispatch_all nts ?v ?objs),
             page_of := (page_of s)\<lparr>messages :=
               setMessages_all (aiMessageId (vars s)) ?us (messages (page_of s))\<rparr>\<rparr>"
    then have nn: "JNull \<notin> set ?objs" using dispatch_all_no_error by blast
    have l: "abortControllerRef (page_of s) \<noteq> None" "messages (page_of s) \<noteq> []"
      "msg_id ?m = aiMessageId (vars s)" "role ?m = assistant" "isStreaming ?m = Some True"
      "content ?m = accumulatedContent (vars s)"
      using assms by (simp_all add: live_def)
    have last: "last (setMessages_all (aiMessageId (vars s)) ?us (messages (page_of s))) = apply_all ?us ?m"
      using l(2,3) by (simp add: setMessages_all_map last_map)
    have c: "content (apply_all ?us ?m) = accumulatedContent (fst (dispatch_all nts ?v ?objs))"
      using dispatch_all_effect[OF nn, of nts ?v ?m] dispatch_all_vars[OF nn, of nts ?v] l(6)
      by (auto simp: filter_False)
    show ?thesis
      using ok l last c dispatch_all_aid[of nts ?v ?objs]
      by (simp add: live_def apply_all_frame setMessages_all_map)
  qed
qed

lemma step_live:
  assumes "live s"
  shows "live (step nts s ev)"
proof (cases "control s")
  case Returned
  then show ?thesis by (cases ev) (simp_all add: step.simps live_def)
next
  case AwaitFetch
  then show ?thesis
    using assms cancelled_facts(1)[of s]
    by (cases ev) (auto simp: step.simps live_def throws_facts finished_facts)
next
  case (AwaitText status)
  then show ?thesis
    using assms cancelled_facts(1)[of s]
    by (cases ev) (auto simp: step.simps live_def throws_facts)
next
  case AwaitRead
  show ?thesis
  proof (cases ev)
    case (ReadChunk c)
    then show ?thesis using AwaitRead on_chunk_live[OF assms AwaitRead] by (simp add: step.simps)
  qed (use AwaitRead assms cancelled_facts(1)[of s] in
        \<open>auto simp: step.simps live_def throws_facts finished_facts\<close>)
qed

lemma run_live: "live s \<Longrightarrow> live (run nts s evs)"
  by (induction evs arbitrary: s) (simp_all add: run_simps step_live)

lemma mark_cancelled_last:
  assumes "msgs \<noteq> []" "role (last msgs) = assistant" "isStreaming (last msgs) = Some True"
  shows "mark_cancelled msgs =
     butlast msgs @ [(last msgs)\<lparr>content := content (last msgs) @ ''\<newline>\<newline>*Response was cancelled*'',
                               isStreaming := Some False,
                               isReasoningComplete := Some True\<rparr>]"
proof -
  obtain xs m where msgs: "msgs = xs @ [m]"
    using assms(1) by (metis append_butlast_last_id)
  have z: "zip (map int [0..<length msgs]) msgs
      = zip (map int [0..<length xs]) xs @ [(int (length xs), m)]"
    by (simp add: msgs)
  have "\<forall>q\<in>set (zip (map int [0..<length xs]) xs). fst q \<noteq> int (length xs)"
    by (auto simp: set_zip)
  then have front: "map (\<lambda>(index, msg).
            if index = int (length xs) \<and> role msg = assistant \<and> isStreaming msg = Some True
            then msg\<lparr>content := content msg @ ''\<newline>\<newline>*Response was cancelled*'',
                     isStreaming := Some False,
                     isReasoningComplete := Some True\<rparr>
            else msg) (zip (map int [0..<length xs]) xs) = map snd (zip (map int [0..<length xs]) xs)"
    by (intro map_cong) (auto simp: case_prod_beta)
  have "map snd (zip (map int [0..<length xs]) xs) = xs"
    by (simp add: map_snd_zip)
  then show ?thesis
    using assms(2,3) front unfolding mark_cancelled_def z
    by (simp add: msgs)
qed

lemma sample_begin:
  "handleSendMessage_begin 1 1 (sample_page r) =
     (page_of (sample_session r), Some (vars (sample_session r)))"
proof -
  have "snd (handleSendMessage_begin 1 1 (sample_page r)) \<noteq> None"
    by (cases r) (simp_all add: handleSendMessage_begin_def sample_page_def Let_def)
  then show ?thesis
    by (cases "handleSendMessage_begin 1 1 (sample_page r)") (auto simp: sample_session_def)
qed

lemma sample_session_eq:
  "\<lparr>page_of = page_of (sample_session r), vars = vars (sample_session r), control = AwaitFetch\<rparr>
     = sample_session r"
  by (simp add: sample_session_def)

lemma terminal_events_return:
  "abortControllerRef (page_of s) \<noteq> None \<Longrightarrow> control (step nts s CancelClicked) = Returned"
  "control s = AwaitRead \<Longrightarrow> control (step nts s ReadDone) = Returned"
  "control s = AwaitRead \<Longrightarrow> control (step nts s (ReadRejects e)) = Returned"
  "control s = AwaitFetch \<Longrightarrow> control (step nts s (FetchRejects e)) = Returned"
  "control s = AwaitFetch \<Longrightarrow> control (step nts s (FetchResolves True status False)) = Returned"
  "control s = AwaitFetch \<Longrightarrow> control (step nts s (FetchResolves False status body)) = AwaitText status"
  "control s = AwaitText status \<Longrightarrow> control (step nts s (TextResolves t)) = Returned"
  "control s = AwaitText status \<Longrightarrow> control (step nts s (TextRejects e)) = Returned"
  by (cases "control s"; simp add: step.simps throws_facts finished_facts cancelled_facts handleCancelRequest_def)+

subsection \<open>A stream read to its end, however chunked\<close>










section \<open>The tokenizer: claims\<close>

text \<open>
  Claim C1. Feeding the complete text in one call yields the same ordered list of
  objects as feeding it in any sequence of chunks, each call taking the previous call's
  remainder followed by the chunk. The final remainder is the same as well. This holds
  for every parser, so in particular for \<open>JSON_parse\<close>.
\<close>

theorem chunked_feeding_equals_single_call:
  "read_objects parse [] chunks = parseJSONStream parse (concat chunks)"
  by (rule read_objects_concat)


text \<open>
  Claim C8, as the code has it. The loop tests for a backslash before it looks at
  \<open>inString\<close>, so the flag is set on every backslash that is not itself consumed by a
  pending escape, inside a string or outside. The backslash changes nothing else, and
  the character after it is consumed with no effect but clearing the flag.
\<close>

theorem backslash_sets_escape_everywhere:
  assumes "buf ! i = backslash" and "\<not> escaped (scan_upto parse buf i)"
  shows "scan_upto parse buf (Suc i) = (scan_upto parse buf i)\<lparr>escaped := True\<rparr>
       \<and> scan_upto parse buf (Suc (Suc i)) = scan_upto parse buf i"
  using assms by (simp add: scan_upto_Suc scan_step_def)

theorem backslash_sets_escape_everywhere_witness:
  \<open>scan_upto JSON_parse (backslash # ''{}'') 1 = (scan_upto JSON_parse (backslash # ''{}'') 0)\<lparr>escaped := True\<rparr>
   \<and> scan_upto JSON_parse (backslash # ''{}'') 2 = scan_upto JSON_parse (backslash # ''{}'') 0\<close>
proof -
  have "(backslash # ''{}'') ! 0 = backslash" by simp
  moreover have "\<not> escaped (scan_upto JSON_parse (backslash # ''{}'') 0)"
    by (simp add: scan_upto_def scan_init_def)
  ultimately show ?thesis
    using backslash_sets_escape_everywhere[of "backslash # ''{}''" 0 JSON_parse]
    by (simp add: numeral_2_eq_2)
qed

text \<open>
  The claim as stated fails on the buffer \<^verbatim>\<open>\{}\<close>: the scanner is outside a string at
  the backslash, the flag is set, the opening brace is swallowed, and the closing brace
  takes the depth to \<open>-1\<close>, so nothing is cut, where \<^verbatim>\<open>{}\<close> alone is an object.
\<close>

theorem backslash_outside_string_counterexample:
  \<open>(backslash # ''{}'') ! 0 = backslash
   \<and> \<not> inString (scan_upto JSON_parse (backslash # ''{}'') 0)
   \<and> escaped (scan_upto JSON_parse (backslash # ''{}'') 1)
   \<and> scan_upto JSON_parse (backslash # ''{}'') 1 \<noteq> scan_upto JSON_parse (backslash # ''{}'') 0
   \<and> parseJSONStream JSON_parse (backslash # ''{}'') = ([], backslash # ''{}'')
   \<and> parseJSONStream JSON_parse ''{}'' = ([JObject []], [])\<close>
  by code_simp




section \<open>The dispatch of events and the turn: claims\<close>

text \<open>
  Claim C3. The buffer of the claim is cut into three candidates; the middle one,
  \<^verbatim>\<open>{bad}\<close>, fails to parse and goes to the warnings; the two objects that remain are
  dispatched as content events, storing \<^verbatim>\<open>a\<close> and then \<^verbatim>\<open>ab\<close> after whatever content
  the turn had accumulated (and, in the reasoning phase, marking the reasoning complete
  first).
\<close>

theorem malformed_object_isolation:
  \<open>parseJSONStream JSON_parse
      ''{"type":"content","data":"a"}{bad}{"type":"content","data":"b"}'' =
     ([JObject [(''type'', JString ''content''), (''data'', JString ''a'')],
       JObject [(''type'', JString ''content''), (''data'', JString ''b'')]], [])
   \<and> parseJSONStream_warnings JSON_parse
      ''{"type":"content","data":"a"}{bad}{"type":"content","data":"b"}'' = [''{bad}'']
   \<and> dispatch_all nts v
        [JObject [(''type'', JString ''content''), (''data'', JString ''a'')],
         JObject [(''type'', JString ''content''), (''data'', JString ''b'')]] =
       (v\<lparr>isReasoningPhase := False, accumulatedContent := accumulatedContent v @ ''ab''\<rparr>,
        (if isReasoningPhase v then [SetReasoningComplete] else [])
          @ [SetContent (accumulatedContent v @ ''a''), SetContent (accumulatedContent v @ ''ab'')],
        None)\<close>
proof -
  have p: \<open>parseJSONStream JSON_parse
      ''{"type":"content","data":"a"}{bad}{"type":"content","data":"b"}'' =
     ([JObject [(''type'', JString ''content''), (''data'', JString ''a'')],
       JObject [(''type'', JString ''content''), (''data'', JString ''b'')]], [])\<close>
    by code_simp
  have w: \<open>parseJSONStream_warnings JSON_parse
      ''{"type":"content","data":"a"}{bad}{"type":"content","data":"b"}'' = [''{bad}'']\<close>
    by code_simp
  have d: "\<And>w t. dispatch nts w (JObject [(''type'', JString ''content''), (''data'', JString t)]) =
     Inr (w\<lparr>isReasoningPhase := False, accumulatedContent := accumulatedContent w @ t\<rparr>,
          (if isReasoningPhase w then [SetReasoningComplete] else [])
            @ [SetContent (accumulatedContent w @ t)])"
    using dispatch_content[of "JObject [(''type'', JString ''content''), (''data'', JString _)]" nts]
    by (simp add: has_type_object data_text_object)
  show ?thesis
    using p w by (simp add: d)
qed





text \<open>
  Claim C6. If the user cancels while the call is suspended, at whatever point of the
  stream, the transcript becomes the transcript of that moment with its last message,
  the turn's assistant message, changed in three fields: the content is the accumulated
  content followed by the notice, the streaming flag is off, the reasoning is marked
  complete. The call has returned, and no event that arrives afterwards changes
  anything: the state after any further events is the state right after the click.
\<close>

theorem cancellation_finalizes_message:
  assumes "handleSendMessage_begin now1 now2 p = (p0, Some v0)"
    and "s = run nts \<lparr>page_of = p0, vars = v0, control = AwaitFetch\<rparr> before"
    and "control s \<noteq> Returned"
    and "s' = run nts \<lparr>page_of = p0, vars = v0, control = AwaitFetch\<rparr> (before @ CancelClicked # after)"
  shows "messages (page_of s') =
           butlast (messages (page_of s))
           @ [(last (messages (page_of s)))
                \<lparr>content := accumulatedContent (vars s) @ ''\<newline>\<newline>*Response was cancelled*'',
                 isStreaming := Some False,
                 isReasoningComplete := Some True\<rparr>]
     \<and> msg_id (last (messages (page_of s))) = aiMessageId v0
     \<and> role (last (messages (page_of s))) = assistant
     \<and> s' = step nts s CancelClicked
     \<and> control s' = Returned"
proof -
  let ?s0 = "\<lparr>page_of = p0, vars = v0, control = AwaitFetch\<rparr>"
  note b = begin_facts[OF assms(1)]
  have "live ?s0" using b by (simp add: live_def)
  then have "live s" unfolding assms(2) by (rule run_live)
  then have l: "abortControllerRef (page_of s) \<noteq> None" "messages (page_of s) \<noteq> []"
      "msg_id (last (messages (page_of s))) = aiMessageId (vars s)"
      "role (last (messages (page_of s))) = assistant"
      "isStreaming (last (messages (page_of s))) = Some True"
      "content (last (messages (page_of s))) = accumulatedContent (vars s)"
    using assms(3) by (simp_all add: live_def)
  have aid: "aiMessageId (vars s) = aiMessageId v0"
    unfolding assms(2) using run_aid[of nts ?s0 before] by simp
  have st: "step nts s CancelClicked = cancelled s"
    using assms(3) by (cases "control s") (simp_all add: step.simps)
  obtain c where c: "abortControllerRef (page_of s) = Some c" using l(1) by auto
  have msgs: "messages (page_of (cancelled s)) = mark_cancelled (messages (page_of s))"
    using c by (simp add: cancelled_def throws_def finally_block_def catch_block_def handleCancelRequest_def)
  have ret: "control (cancelled s) = Returned" "abortControllerRef (page_of (cancelled s)) = None"
    using c by (simp_all add: cancelled_def throws_facts)
  have "s' = run nts (step nts s CancelClicked) after"
    unfolding assms(4) assms(2) by (simp add: run_simps)
  then have s': "s' = cancelled s"
    using run_Returned[OF ret] st by simp
  show ?thesis
    using s' st msgs ret(1) mark_cancelled_last[OF l(2,4,5)] l(3,4,6) aid by simp
qed

theorem cancellation_finalizes_message_witness:
  \<open>messages (page_of (run (\<lambda>s. s) (sample_session False)
      ([FetchResolves True 200 True, ReadChunk ''{"type":"content","data":"Hel"}'']
        @ CancelClicked # [ReadChunk ''{"type":"content","data":"lo"}'', ReadDone]))) =
    butlast (messages (page_of (run (\<lambda>s. s) (sample_session False)
      [FetchResolves True 200 True, ReadChunk ''{"type":"content","data":"Hel"}''])))
    @ [(last (messages (page_of (run (\<lambda>s. s) (sample_session False)
          [FetchResolves True 200 True, ReadChunk ''{"type":"content","data":"Hel"}'']))))
        \<lparr>content := ''Hel\<newline>\<newline>*Response was cancelled*'',
         isStreaming := Some False,
         isReasoningComplete := Some True\<rparr>]\<close>
proof -
  let ?before = \<open>[FetchResolves True 200 True, ReadChunk ''{"type":"content","data":"Hel"}'']\<close>
  let ?after = \<open>[ReadChunk ''{"type":"content","data":"lo"}'', ReadDone]\<close>
  have live: "control (run (\<lambda>s. s) (sample_session False) ?before) \<noteq> Returned"
    by code_simp
  have acc: "accumulatedContent (vars (run (\<lambda>s. s) (sample_session False) ?before)) = ''Hel''"
    by code_simp
  show ?thesis
    using cancellation_finalizes_message[OF sample_begin[of False] refl _ refl,
        of "\<lambda>s. s" ?before ?after, unfolded sample_session_eq, OF live, THEN conjunct1]
    unfolding acc by simp
qed




text \<open>
  Claim C9. Whenever the call has returned, by whatever sequence of events, the loading
  flag is off and the ref is empty. \<open>terminal_events_return\<close> above lists the events
  that make it return: the end of the stream, a response without a body, the click on
  cancel, a rejected request, read or error text, and the error text of a response that
  is not ok.
\<close>

theorem cleanup_on_every_exit:
  assumes "handleSendMessage_begin now1 now2 p = (p0, Some v0)"
    and "control (run nts \<lparr>page_of = p0, vars = v0, control = AwaitFetch\<rparr> evs) = Returned"
  shows "\<not> isLoading (page_of (run nts \<lparr>page_of = p0, vars = v0, control = AwaitFetch\<rparr> evs))
     \<and> abortControllerRef (page_of (run nts \<lparr>page_of = p0, vars = v0, control = AwaitFetch\<rparr> evs)) = None"
proof -
  have "cleared \<lparr>page_of = p0, vars = v0, control = AwaitFetch\<rparr>"
    by (simp add: cleared_def)
  then have "cleared (run nts \<lparr>page_of = p0, vars = v0, control = AwaitFetch\<rparr> evs)"
    by (rule run_cleared)
  then show ?thesis using assms(2) by (simp add: cleared_def)
qed

theorem cleanup_on_every_exit_witness:
  \<open>(\<not> isLoading (page_of (run (\<lambda>s. s) (sample_session False)
        [FetchResolves True 200 True, ReadChunk ''{"type":"content","data":"Hi"}'', ReadDone]))
    \<and> abortControllerRef (page_of (run (\<lambda>s. s) (sample_session False)
        [FetchResolves True 200 True, ReadChunk ''{"type":"content","data":"Hi"}'', ReadDone])) = None)
   \<and> (\<not> isLoading (page_of (run (\<lambda>s. s) (sample_session False)
        [FetchResolves True 200 True, CancelClicked]))
    \<and> abortControllerRef (page_of (run (\<lambda>s. s) (sample_session False)
        [FetchResolves True 200 True, CancelClicked])) = None)
   \<and> (\<not> isLoading (page_of (run (\<lambda>s. s) (sample_session False)
        [FetchRejects (JSError ''TypeError'' ''Failed to fetch'')]))
    \<and> abortControllerRef (page_of (run (\<lambda>s. s) (sample_session False)
        [FetchRejects (JSError ''TypeError'' ''Failed to fetch'')])) = None)
   \<and> (\<not> isLoading (page_of (run (\<lambda>s. s) (sample_session False)
        [FetchResolves False 500 True, TextResolves ''down'']))
    \<and> abortControllerRef (page_of (run (\<lambda>s. s) (sample_session False)
        [FetchResolves False 500 True, TextResolves ''down''])) = None)\<close>
proof -
  have a: \<open>control (run (\<lambda>s. s) (sample_session False)
        [FetchResolves True 200 True, ReadChunk ''{"type":"content","data":"Hi"}'', ReadDone]) = Returned\<close>
    by code_simp
  have b: \<open>control (run (\<lambda>s. s) (sample_session False)
        [FetchResolves True 200 True, CancelClicked]) = Returned\<close>
    by code_simp
  have c: \<open>control (run (\<lambda>s. s) (sample_session False)
        [FetchRejects (JSError ''TypeError'' ''Failed to fetch'')]) = Returned\<close>
    by code_simp
  have d: \<open>control (run (\<lambda>s. s) (sample_session False)
        [FetchResolves False 500 True, TextResolves ''down'']) = Returned\<close>
    by code_simp
  note t = cleanup_on_every_exit[OF sample_begin[of False], of "\<lambda>s. s", unfolded sample_session_eq]
  show ?thesis
    using t[OF a] t[OF b] t[OF c] t[OF d] by simp
qed

end
